theory Spec2Isabelle
  imports Complex_Main "HOL-Library.Sublist" "HOL-Library.Product_Lexorder"
begin

section \<open>Python values\<close>

text \<open>
  A Python \<open>str\<close> is a sequence of Unicode code points and \<open>len\<close> counts code points,
  so a string is a list of code-point numbers.  The characters the scripts name are
  given by their code points: \<open>' '\<close> is 32, \<open>'@'\<close> is 64 and the ideographic full stop
  is 12290.
\<close>

type_synonym ustr = "nat list"

datatype py_error = KeyError | IndexError | TypeError

text \<open>\<open>xs[i]\<close> on a list: a negative index counts from the end, out of range raises.\<close>

definition py_get :: "'a list \<Rightarrow> int \<Rightarrow> py_error + 'a" where
  "py_get xs i =
     (if 0 \<le> i \<and> i < int (length xs) then Inr (xs ! nat i)
      else if i < 0 \<and> - int (length xs) \<le> i then Inr (xs ! nat (int (length xs) + i))
      else Inl IndexError)"

text \<open>\<open>xs[a:b]\<close>: both bounds are clipped, a negative bound counts from the end.\<close>

definition py_slice :: "'a list \<Rightarrow> int \<Rightarrow> int \<Rightarrow> 'a list" where
  "py_slice xs a b =
     (let n = int (length xs);
          a' = (if a < 0 then max (a + n) 0 else min a n);
          b' = (if b < 0 then max (b + n) 0 else min b n)
      in take (nat (b' - a')) (drop (nat a') xs))"

text \<open>\<open>s.index(sub)\<close>: the first position where \<open>sub\<close> starts; \<open>None\<close> is ValueError.\<close>

fun str_index :: "'a list \<Rightarrow> 'a list \<Rightarrow> nat option" where
  "str_index sub [] = (if sub = [] then Some 0 else None)"
| "str_index sub (c # cs) =
     (if prefix sub (c # cs) then Some 0 else map_option Suc (str_index sub cs))"

text \<open>\<open>sub in s\<close> on strings.\<close>

definition str_in :: "'a list \<Rightarrow> 'a list \<Rightarrow> bool" where
  "str_in sub s = (str_index sub s \<noteq> None)"

text \<open>\<open>s.endswith(c)\<close> for a one-character \<open>c\<close>.\<close>

definition endswith_char :: "'a list \<Rightarrow> 'a \<Rightarrow> bool" where
  "endswith_char s c = (s \<noteq> [] \<and> last s = c)"

text \<open>\<open>s.replace(c, '')\<close> for a one-character \<open>c\<close>.\<close>

definition remove_char :: "'a \<Rightarrow> 'a list \<Rightarrow> 'a list" where
  "remove_char c s = filter (\<lambda>x. x \<noteq> c) s"

definition full_stop :: nat where
  "full_stop = 12290"

definition space :: nat where
  "space = 32"

section \<open>The span locator: \<open>find_best_match_index\<close>\<close>

text \<open>
  The scorer \<open>RougeL().add_inst(cand, ref).get_score()\<close> comes from \<open>utils.rouge\<close>,
  which is not among the sources; it is the parameter \<open>rouge\<close> (candidate first,
  reference second).  A score is a float; only its comparisons matter here, so it is
  read as the rational number it denotes.

  The state of the fuzzy search is \<open>(best_score, best_start, best_end,
  last_end_in_sub_text)\<close>.
\<close>

type_synonym search_state = "rat \<times> int \<times> int \<times> int"

text \<open>
  The inner loop over \<open>end_idx\<close>.  Its range is computed once, when the loop is
  entered; the list argument holds the values still to visit.
\<close>

fun end_loop :: "(ustr \<Rightarrow> ustr \<Rightarrow> rat) \<Rightarrow> ustr \<Rightarrow> ustr \<Rightarrow> nat \<Rightarrow> int list
    \<Rightarrow> search_state \<Rightarrow> search_state" where
  "end_loop rouge sub_text doc_content start_idx [] st = st"
| "end_loop rouge sub_text doc_content start_idx (end_idx # rest)
      (best_score, best_start, best_end, last_end) =
     (if doc_content ! nat end_idx \<notin> set sub_text
      then end_loop rouge sub_text doc_content start_idx rest
             (best_score, best_start, best_end, last_end)
      else
        (let sub_para_content = py_slice doc_content (int start_idx) (end_idx + 1);
             score = rouge sub_para_content sub_text
         in if score > best_score
            then end_loop rouge sub_text doc_content start_idx rest
                   (score, int start_idx, end_idx, end_idx)
            else end_loop rouge sub_text doc_content start_idx rest
                   (best_score, best_start, best_end, last_end)))"

text \<open>The outer loop over \<open>start_idx\<close>; \<open>range(a, b, -1)\<close> is \<open>rev [b + 1..a]\<close>.\<close>

fun start_loop :: "(ustr \<Rightarrow> ustr \<Rightarrow> rat) \<Rightarrow> ustr \<Rightarrow> ustr \<Rightarrow> nat list
    \<Rightarrow> search_state \<Rightarrow> search_state" where
  "start_loop rouge sub_text doc_content [] st = st"
| "start_loop rouge sub_text doc_content (start_idx # rest)
      (best_score, best_start, best_end, last_end) =
     (if doc_content ! start_idx \<notin> set sub_text
      then start_loop rouge sub_text doc_content rest
             (best_score, best_start, best_end, last_end)
      else start_loop rouge sub_text doc_content rest
             (end_loop rouge sub_text doc_content start_idx
                (rev [int start_idx..last_end])
                (best_score, best_start, best_end, last_end)))"

definition fuzzy_search :: "(ustr \<Rightarrow> ustr \<Rightarrow> rat) \<Rightarrow> ustr \<Rightarrow> ustr \<Rightarrow> int \<times> int \<times> rat" where
  "fuzzy_search rouge sub_text doc_content =
     (case start_loop rouge sub_text doc_content
             [0..<length doc_content - length sub_text]
             (0, - 1, - 1, int (length doc_content) - 1) of
        (best_score, best_start, best_end, last_end) \<Rightarrow>
          if best_score = 0 then (- 1, - 1, 0) else (best_start, best_end, best_score))"

text \<open>
  An exact hit: \<open>best_start = doc_content.index(sub_text)\<close>,
  \<open>best_end = best_start + len(sub_text) - 1\<close>, confidence 1.  It is only called
  where \<open>sub_text in doc_content\<close> holds, so \<open>index\<close> does not raise.
\<close>

definition exact_span :: "ustr \<Rightarrow> ustr \<Rightarrow> int \<times> int \<times> rat" where
  "exact_span sub_text doc_content =
     (let best_start = int (the (str_index sub_text doc_content));
          best_end = best_start + int (length sub_text) - 1
      in (best_start, best_end, 1))"

definition find_best_match_index :: "(ustr \<Rightarrow> ustr \<Rightarrow> rat) \<Rightarrow> ustr \<Rightarrow> ustr
    \<Rightarrow> int \<times> int \<times> rat" where
  "find_best_match_index rouge sub_text doc_content =
     (if str_in sub_text doc_content then exact_span sub_text doc_content
      else if endswith_char sub_text full_stop \<and> str_in (butlast sub_text) doc_content
      then exact_span (butlast sub_text) doc_content
      else if str_in (remove_char space sub_text) doc_content
      then exact_span (remove_char space sub_text) doc_content
      else fuzzy_search rouge sub_text doc_content)"

section \<open>Markers and the remaining string operations\<close>

text \<open>
  \<open>s.split(sep)\<close> with a non-empty separator: the pieces between the occurrences of
  \<open>sep\<close>, found from the left without overlap.  The second argument is the piece read
  so far.
\<close>

fun split_from :: "'a list \<Rightarrow> 'a list \<Rightarrow> 'a list \<Rightarrow> 'a list list" where
  "split_from sep cur [] = [cur]"
| "split_from sep cur (c # cs) =
     (if prefix sep (c # cs) then cur # split_from sep [] (drop (length sep - 1) cs)
      else split_from sep (cur @ [c]) cs)"

definition str_split :: "'a list \<Rightarrow> 'a list \<Rightarrow> 'a list list" where
  "str_split s sep = split_from sep [] s"

text \<open>\<open>s.replace(pat, '')\<close> with a non-empty \<open>pat\<close>.\<close>

fun str_remove :: "'a list \<Rightarrow> 'a list \<Rightarrow> 'a list" where
  "str_remove pat [] = []"
| "str_remove pat (c # cs) =
     (if prefix pat (c # cs) then str_remove pat (drop (length pat - 1) cs)
      else c # str_remove pat cs)"

text \<open>\<open>s.strip()\<close> removes the characters of \<open>str.isspace\<close> from both ends.\<close>

definition py_isspace :: "nat \<Rightarrow> bool" where
  "py_isspace c \<longleftrightarrow>
     (9 \<le> c \<and> c \<le> 13) \<or> (28 \<le> c \<and> c \<le> 32) \<or> c = 133 \<or> c = 160 \<or> c = 5760
     \<or> (8192 \<le> c \<and> c \<le> 8202) \<or> c = 8232 \<or> c = 8233 \<or> c = 8239 \<or> c = 8287
     \<or> c = 12288"

definition str_strip :: "ustr \<Rightarrow> ustr" where
  "str_strip s = rev (dropWhile py_isspace (rev (dropWhile py_isspace s)))"

text \<open>\<open>str(n)\<close> for a natural number: its decimal digits.\<close>

function str_of_nat :: "nat \<Rightarrow> ustr" where
  "str_of_nat n = (if n < 10 then [48 + n] else str_of_nat (n div 10) @ [48 + n mod 10])"
  by pat_completeness auto
termination
  by (relation "measure (\<lambda>n. n)") auto

declare str_of_nat.simps [simp del]

text \<open>The text \<open>@content\<close>, and the two formats \<open>'@content{}@'\<close> and \<open>'content{}@'\<close>.\<close>

definition at_content :: ustr where
  "at_content = [64, 99, 111, 110, 116, 101, 110, 116]"

definition marker :: "nat \<Rightarrow> ustr" where
  "marker n = at_content @ str_of_nat n @ [64]"

definition marker_tail :: "nat \<Rightarrow> ustr" where
  "marker_tail n = tl at_content @ str_of_nat n @ [64]"

text \<open>
  The parts of the Python runtime and of the missing module that the resolver uses:
  the scorer of \<open>utils.rouge\<close>; the decimal digits, since \<open>\d\<close> in a \<open>str\<close> pattern
  matches every Unicode decimal digit and \<open>int\<close> reads its value; and the order in which
  \<open>list(set(xs))\<close> lists the elements of \<open>xs\<close>, which the language leaves open.
\<close>

record runtime =
  rouge_l :: "ustr \<Rightarrow> ustr \<Rightarrow> rat"
  digit_value :: "nat \<Rightarrow> nat option"
  set_order :: "nat list \<Rightarrow> nat list"

text \<open>
  A match of \<open>@content\d@\<close> at the head of the text, as the number \<open>int(doc[-2:-1])\<close> of
  its digit.
\<close>

definition marker_at :: "(nat \<Rightarrow> nat option) \<Rightarrow> ustr \<Rightarrow> nat option" where
  "marker_at dv s =
     (if prefix at_content s
      then (case drop 8 s of
              d # a # rest \<Rightarrow> if a = 64 then dv d else None
            | _ \<Rightarrow> None)
      else None)"

text \<open>\<open>ans_pattern.findall\<close>: the matches from the left, without overlap.\<close>

fun findall_ids :: "(nat \<Rightarrow> nat option) \<Rightarrow> ustr \<Rightarrow> nat list" where
  "findall_ids dv [] = []"
| "findall_ids dv (c # cs) =
     (case marker_at dv (c # cs) of
        Some n \<Rightarrow> n # findall_ids dv (drop 9 cs)
      | None \<Rightarrow> findall_ids dv cs)"

definition find_answer_in_docid :: "runtime \<Rightarrow> ustr \<Rightarrow> nat list" where
  "find_answer_in_docid rt answer = set_order rt (findall_ids (digit_value rt) answer)"

section \<open>Samples\<close>

text \<open>
  A sample and its documents are JSON objects.  The fields the script reads or writes
  are the fields of the records, a field that may be missing is an option, and the
  extension part of a record stands for every other field of the object.
  An answer label is \<open>(doc index, start, end)\<close>.
\<close>

type_synonym answer_label = "int \<times> int \<times> int"

record document =
  paragraphs :: "ustr list option"
  content :: "ustr option"

record 'd sample =
  documents :: "'d document_scheme list"
  supporting_paragraph :: "ustr option"
  answer :: "ustr option"
  answer_labels :: "answer_label list option"
  fake_answers :: "ustr list option"
  ceil_rougel :: "rat option"

text \<open>A located supporting paragraph: the text found, its start and its end.\<close>

type_synonym sup_para = "ustr \<times> int \<times> int"

section \<open>The answer label resolver: \<open>gen_mrc_dataset\<close>\<close>

text \<open>The first loop: \<open>content\<close> is the concatenation of \<open>paragraphs\<close>, which is deleted.\<close>

fun concat_paragraphs :: "'d document_scheme list \<Rightarrow> py_error + 'd document_scheme list" where
  "concat_paragraphs [] = Inr []"
| "concat_paragraphs (doc # docs) =
     (case paragraphs doc of
        None \<Rightarrow> Inl KeyError
      | Some ps \<Rightarrow>
          (case concat_paragraphs docs of
             Inl e \<Rightarrow> Inl e
           | Inr docs' \<Rightarrow> Inr (doc\<lparr>content := Some (concat ps), paragraphs := None\<rparr> # docs')))"

text \<open>
  The loop over the pieces of \<open>supporting_paragraph\<close> for one document id; the
  dictionary \<open>supported_paras\<close> is a map from document ids.
\<close>

fun para_strs_loop :: "(ustr \<Rightarrow> ustr \<Rightarrow> rat) \<Rightarrow> 'd document_scheme list \<Rightarrow> nat \<Rightarrow> ustr list
    \<Rightarrow> (nat \<rightharpoonup> sup_para list) \<Rightarrow> py_error + (nat \<rightharpoonup> sup_para list)" where
  "para_strs_loop rouge docs sup_para_in_docid [] supported_paras = Inr supported_paras"
| "para_strs_loop rouge docs sup_para_in_docid (para_str # rest) supported_paras =
     (if para_str \<noteq> [] \<and> \<not> str_in at_content para_str
      then
        (case py_get docs (int sup_para_in_docid - 1) of
           Inl e \<Rightarrow> Inl e
         | Inr doc \<Rightarrow>
             (case content doc of
                None \<Rightarrow> Inl KeyError
              | Some doc_content \<Rightarrow>
                  (case find_best_match_index rouge
                          (str_remove (marker_tail sup_para_in_docid) para_str) doc_content of
                     (sup_start, sup_end, rougel) \<Rightarrow>
                       (let found_sup_para = py_slice doc_content sup_start (sup_end + 1)
                        in para_strs_loop rouge docs sup_para_in_docid rest
                             (supported_paras(sup_para_in_docid \<mapsto>
                                (case supported_paras sup_para_in_docid of
                                   Some found \<Rightarrow> found @ [(found_sup_para, sup_start, sup_end)]
                                 | None \<Rightarrow> [(found_sup_para, sup_start, sup_end)])))))))
      else para_strs_loop rouge docs sup_para_in_docid rest supported_paras)"

fun support_docids_loop :: "(ustr \<Rightarrow> ustr \<Rightarrow> rat) \<Rightarrow> 'd document_scheme list \<Rightarrow> ustr \<Rightarrow> nat list
    \<Rightarrow> (nat \<rightharpoonup> sup_para list) \<Rightarrow> py_error + (nat \<rightharpoonup> sup_para list)" where
  "support_docids_loop rouge docs sup_text [] supported_paras = Inr supported_paras"
| "support_docids_loop rouge docs sup_text (sup_para_in_docid # rest) supported_paras =
     (case para_strs_loop rouge docs sup_para_in_docid
             (str_split sup_text (marker sup_para_in_docid)) supported_paras of
        Inl e \<Rightarrow> Inl e
      | Inr supported_paras' \<Rightarrow> support_docids_loop rouge docs sup_text rest supported_paras')"

text \<open>
  The loop over the supporting paragraphs of a document for one answer text.  Its state
  is \<open>(max_rougel, best_start_in_sup_para, best_end_in_sup_para, best_sup_para_i)\<close>.
\<close>

type_synonym best_state = "rat \<times> int \<times> int \<times> nat option"

fun best_sup_para :: "(ustr \<Rightarrow> ustr \<Rightarrow> rat) \<Rightarrow> ustr \<Rightarrow> (nat \<times> sup_para) list
    \<Rightarrow> best_state \<Rightarrow> best_state" where
  "best_sup_para rouge answer_str [] st = st"
| "best_sup_para rouge answer_str ((sup_para_i, doc_support_para) # rest)
      (max_rougel, best_start, best_end, best_i) =
     (case find_best_match_index rouge answer_str (fst doc_support_para) of
        (start_in_sup_para, end_in_sup_para, rougel) \<Rightarrow>
          if rougel > max_rougel
          then best_sup_para rouge answer_str rest
                 (rougel, start_in_sup_para, end_in_sup_para, Some sup_para_i)
          else best_sup_para rouge answer_str rest (max_rougel, best_start, best_end, best_i))"

text \<open>
  The label of one answer text, if one is appended.  Indexing the list of supporting
  paragraphs with \<open>None\<close> would be a TypeError.
\<close>

definition locate_answer :: "(ustr \<Rightarrow> ustr \<Rightarrow> rat) \<Rightarrow> nat \<Rightarrow> sup_para list \<Rightarrow> ustr
    \<Rightarrow> py_error + answer_label option" where
  "locate_answer rouge ans_in_docid doc_support_paras answer_str =
     (case best_sup_para rouge answer_str (enumerate 0 doc_support_paras) (0, - 1, - 1, None) of
        (max_rougel, best_start, best_end, best_i) \<Rightarrow>
          if best_start \<noteq> - 1 \<and> best_end \<noteq> - 1
          then (case best_i of
                  None \<Rightarrow> Inl TypeError
                | Some i \<Rightarrow>
                    (case py_get doc_support_paras (int i) of
                       Inl e \<Rightarrow> Inl e
                     | Inr p \<Rightarrow>
                         (let start_label = best_start + fst (snd p);
                              end_label = start_label + (best_end - best_start)
                          in Inr (Some (int ans_in_docid - 1, start_label, end_label)))))
          else Inr None)"

text \<open>
  The loop over the pieces of \<open>answer\<close> for one document id, with the lists
  \<open>answer_texts\<close> and \<open>answer_labels\<close> it appends to.
\<close>

fun answer_strs_loop :: "(ustr \<Rightarrow> ustr \<Rightarrow> rat) \<Rightarrow> nat \<Rightarrow> sup_para list \<Rightarrow> ustr list
    \<Rightarrow> ustr list \<times> answer_label list \<Rightarrow> py_error + ustr list \<times> answer_label list" where
  "answer_strs_loop rouge ans_in_docid doc_support_paras [] acc = Inr acc"
| "answer_strs_loop rouge ans_in_docid doc_support_paras (piece # rest) (texts, labels) =
     (let answer_str = str_strip piece
      in if answer_str \<noteq> [] \<and> \<not> str_in at_content answer_str
         then
           (let answer_str' = str_remove (marker_tail ans_in_docid) answer_str
            in case locate_answer rouge ans_in_docid doc_support_paras answer_str' of
                 Inl e \<Rightarrow> Inl e
               | Inr None \<Rightarrow>
                   answer_strs_loop rouge ans_in_docid doc_support_paras rest
                     (texts @ [answer_str'], labels)
               | Inr (Some label) \<Rightarrow>
                   answer_strs_loop rouge ans_in_docid doc_support_paras rest
                     (texts @ [answer_str'], labels @ [label]))
         else answer_strs_loop rouge ans_in_docid doc_support_paras rest (texts, labels))"

text \<open>\<open>calc_ceil_rougel\<close>: the texts the labels cut out, and their score.\<close>

fun slice_answers :: "'d document_scheme list \<Rightarrow> answer_label list \<Rightarrow> py_error + ustr list" where
  "slice_answers docs [] = Inr []"
| "slice_answers docs (answer_label # rest) =
     (case py_get docs (fst answer_label) of
        Inl e \<Rightarrow> Inl e
      | Inr doc \<Rightarrow>
          (case content doc of
             None \<Rightarrow> Inl KeyError
           | Some c \<Rightarrow>
               (case slice_answers docs rest of
                  Inl e \<Rightarrow> Inl e
                | Inr fakes \<Rightarrow>
                    Inr (py_slice c (fst (snd answer_label)) (snd (snd answer_label) + 1)
                         # fakes))))"

definition calc_ceil_rougel :: "(ustr \<Rightarrow> ustr \<Rightarrow> rat) \<Rightarrow> ustr \<Rightarrow> ('d, 's) sample_scheme
    \<Rightarrow> py_error + ('d, 's) sample_scheme" where
  "calc_ceil_rougel rouge answer_text s =
     (case answer_labels s of
        None \<Rightarrow> Inl KeyError
      | Some labels \<Rightarrow>
          (case slice_answers (documents s) labels of
             Inl e \<Rightarrow> Inl e
           | Inr fakes \<Rightarrow>
               Inr (s\<lparr>fake_answers := Some fakes,
                       ceil_rougel := Some (if length fakes = 0 then 0
                                            else rouge (concat fakes) answer_text)\<rparr>)))"

text \<open>
  The loop over the document ids of the answer.  The assignment to
  \<open>sample['answer_labels']\<close> and the call of \<open>calc_ceil_rougel\<close> are inside this loop.
\<close>

fun answer_docids_loop :: "(ustr \<Rightarrow> ustr \<Rightarrow> rat) \<Rightarrow> ustr \<Rightarrow> (nat \<rightharpoonup> sup_para list) \<Rightarrow> nat list
    \<Rightarrow> ustr list \<times> answer_label list \<Rightarrow> ('d, 's) sample_scheme
    \<Rightarrow> py_error + ('d, 's) sample_scheme" where
  "answer_docids_loop rouge ans supported_paras [] acc s = Inr s"
| "answer_docids_loop rouge ans supported_paras (ans_in_docid # rest) acc s =
     (case supported_paras ans_in_docid of
        None \<Rightarrow> Inl KeyError
      | Some doc_support_paras \<Rightarrow>
          (case answer_strs_loop rouge ans_in_docid doc_support_paras
                  (str_split ans (marker ans_in_docid)) acc of
             Inl e \<Rightarrow> Inl e
           | Inr (texts, labels) \<Rightarrow>
               (case calc_ceil_rougel rouge (concat texts) (s\<lparr>answer_labels := Some labels\<rparr>) of
                  Inl e \<Rightarrow> Inl e
                | Inr s' \<Rightarrow>
                    answer_docids_loop rouge ans supported_paras rest (texts, labels) s')))"

definition gen_mrc_dataset :: "runtime \<Rightarrow> ('d, 's) sample_scheme
    \<Rightarrow> py_error + ('d, 's) sample_scheme" where
  "gen_mrc_dataset rt sample =
     (case concat_paragraphs (documents sample) of
        Inl e \<Rightarrow> Inl e
      | Inr docs \<Rightarrow>
          (let s = sample\<lparr>documents := docs\<rparr>
           in case answer s of
                None \<Rightarrow> Inr s
              | Some ans \<Rightarrow>
                  (case supporting_paragraph s of
                     None \<Rightarrow> Inl KeyError
                   | Some sup_text \<Rightarrow>
                       (case support_docids_loop (rouge_l rt) docs sup_text
                               (find_answer_in_docid rt sup_text) Map.empty of
                          Inl e \<Rightarrow> Inl e
                        | Inr supported_paras \<Rightarrow>
                            answer_docids_loop (rouge_l rt) ans supported_paras
                              (find_answer_in_docid rt ans) ([], []) s))))"

section \<open>The paragraph ranker: \<open>extract_paragraph\<close>\<close>

text \<open>
  A token is a string, and \<open>'<splitter>'\<close> is the token put after every paragraph.
  The metric \<open>metric_max_over_ground_truths(f1_score, bleu_4, tokens, question)\<close> comes
  from \<open>utils.metric_util\<close>, which is not among the sources; it is the parameter
  \<open>metric\<close>.  The part-of-speech, keyword and word-in-question lists of a document are
  cut with the same indices as its token lists and are left out.
\<close>

type_synonym token = ustr

definition splitter :: token where
  "splitter = [60, 115, 112, 108, 105, 116, 116, 101, 114, 62]"

record seg_document =
  segmented_title :: "token list"
  segmented_paragraphs :: "token list list"

text \<open>\<open>xs[:b]\<close>.\<close>

definition py_prefix :: "'a list \<Rightarrow> int \<Rightarrow> 'a list" where
  "py_prefix xs b = py_slice xs 0 b"

definition calc_paragraph_match_scores :: "(token list \<Rightarrow> token list \<Rightarrow> rat)
    \<Rightarrow> 'd seg_document_scheme \<Rightarrow> token list \<Rightarrow> rat list" where
  "calc_paragraph_match_scores metric doc question =
     map (\<lambda>para_tokens. metric para_tokens question) (segmented_paragraphs doc)"

text \<open>\<open>para_infos\<close>: (match score, length, original index) of every paragraph.\<close>

definition para_infos :: "token list list \<Rightarrow> rat list \<Rightarrow> (rat \<times> nat \<times> nat) list" where
  "para_infos paras scores =
     map (\<lambda>(p_idx, para_tokens, para_score). (para_score, length para_tokens, p_idx))
       (enumerate 0 (zip paras scores))"

text \<open>
  \<open>para_infos.sort(key=lambda x: (-x[0], x[1]))\<close>: a stable sort, the keys compared as
  pairs.
\<close>

definition sort_para_infos :: "(rat \<times> nat \<times> nat) list \<Rightarrow> (rat \<times> nat \<times> nat) list" where
  "sort_para_infos infos = sort_key (\<lambda>x. (- fst x, fst (snd x))) infos"

text \<open>What the selection loop leaves behind.\<close>

record selection =
  selected_para_ids :: "nat list"
  last_para_id :: int
  last_para_cut_idx :: int

fun select_loop :: "int \<Rightarrow> token list list \<Rightarrow> (rat \<times> nat \<times> nat) list \<Rightarrow> int \<Rightarrow> nat list
    \<Rightarrow> selection" where
  "select_loop max_doc_len paras [] selected_para_len ids =
     \<lparr>selected_para_ids = ids, last_para_id = - 1, last_para_cut_idx = - 1\<rparr>"
| "select_loop max_doc_len paras (para_info # rest) selected_para_len ids =
     (let para_id = snd (snd para_info);
          selected_para_len' = selected_para_len + int (length (paras ! para_id)) + 1
      in if selected_para_len' \<le> max_doc_len
         then select_loop max_doc_len paras rest selected_para_len' (ids @ [para_id])
         else \<lparr>selected_para_ids = ids, last_para_id = int para_id,
                last_para_cut_idx = max_doc_len - selected_para_len' + 1\<rparr>)"

text \<open>The selection of one document, after \<open>selected_para_ids.sort()\<close>.\<close>

definition select_paragraphs :: "(token list \<Rightarrow> token list \<Rightarrow> rat) \<Rightarrow> token list \<Rightarrow> int
    \<Rightarrow> 'd seg_document_scheme \<Rightarrow> selection" where
  "select_paragraphs metric question max_doc_len doc =
     (let para_match_scores = calc_paragraph_match_scores metric doc question;
          infos = sort_para_infos (para_infos (segmented_paragraphs doc) para_match_scores);
          sel = select_loop max_doc_len (segmented_paragraphs doc) infos
                  (int (length (segmented_title doc)) + 1) []
      in sel\<lparr>selected_para_ids := sort (selected_para_ids sel)\<rparr>)"

text \<open>
  The list \<open>segmented_paragraphs\<close> that is concatenated: the title, the selected
  paragraphs, and the cut paragraph if there is one.
\<close>

definition kept_paragraphs :: "'d seg_document_scheme \<Rightarrow> selection \<Rightarrow> token list list" where
  "kept_paragraphs doc sel =
     [segmented_title doc]
     @ map (\<lambda>i. segmented_paragraphs doc ! i) (selected_para_ids sel)
     @ (if last_para_id sel > - 1
        then [py_prefix (segmented_paragraphs doc ! nat (last_para_id sel))
                (last_para_cut_idx sel)]
        else [])"

text \<open>
  The original indices of the paragraphs of that list after the title, in the order in
  which they stand in it.
\<close>

definition kept_para_ids :: "selection \<Rightarrow> nat list" where
  "kept_para_ids sel =
     selected_para_ids sel @ (if last_para_id sel > - 1 then [nat (last_para_id sel)] else [])"

definition kept_match_scores :: "(token list \<Rightarrow> token list \<Rightarrow> rat) \<Rightarrow> token list
    \<Rightarrow> 'd seg_document_scheme \<Rightarrow> selection \<Rightarrow> rat list" where
  "kept_match_scores metric question doc sel =
     [metric (segmented_title doc) question]
     @ map (\<lambda>i. calc_paragraph_match_scores metric doc question ! i) (selected_para_ids sel)
     @ (if last_para_id sel > - 1
        then [metric (py_prefix (segmented_paragraphs doc ! nat (last_para_id sel))
                        (last_para_cut_idx sel)) question]
        else [])"

text \<open>\<open>xs.index(max(xs))\<close> on a non-empty list.\<close>

fun index_of :: "'a \<Rightarrow> 'a list \<Rightarrow> nat" where
  "index_of x [] = 0"
| "index_of x (y # ys) = (if x = y then 0 else Suc (index_of x ys))"

text \<open>The fields \<open>extract_paragraph\<close> writes into a document.\<close>

record ranked_document =
  most_related_para_id :: nat
  segmented_passage :: "token list"
  paragraph_match_score :: "rat list"
  title_len :: nat

definition concat_passage :: "token list list \<Rightarrow> token list" where
  "concat_passage segs = py_prefix (concat (map (\<lambda>seg_para. seg_para @ [splitter]) segs)) (- 1)"

definition extract_paragraph_doc :: "(token list \<Rightarrow> token list \<Rightarrow> rat) \<Rightarrow> token list \<Rightarrow> int
    \<Rightarrow> 'd seg_document_scheme \<Rightarrow> ranked_document" where
  "extract_paragraph_doc metric question max_doc_len doc =
     (let sel = select_paragraphs metric question max_doc_len doc;
          paragraph_match_scores = kept_match_scores metric question doc sel
      in \<lparr>most_related_para_id =
             index_of (Max (set paragraph_match_scores)) paragraph_match_scores,
           segmented_passage = concat_passage (kept_paragraphs doc sel),
           paragraph_match_score = paragraph_match_scores,
           title_len = length (segmented_title doc)\<rparr>)"

section \<open>Invariants and observations of the resolver\<close>

text \<open>
  The state of the fuzzy search over a container of \<open>n\<close> characters: the score is not
  negative, the end ceiling is inside the container, and once a window has scored above
  0 the best span is a span of the container.
\<close>

definition search_inv :: "nat \<Rightarrow> search_state \<Rightarrow> bool" where
  "search_inv n st =
     (case st of (best_score, best_start, best_end, last_end) \<Rightarrow>
        0 \<le> best_score \<and> last_end < int n
        \<and> (best_score = 0 \<or> (0 \<le> best_start \<and> best_start \<le> best_end \<and> best_end < int n)))"

text \<open>
  What the span locator can return for a container of \<open>n\<close> characters: no match, the
  empty span at 0 (an exact hit of the empty text), or a span of the container.
\<close>

definition span_ok :: "nat \<Rightarrow> int \<times> int \<times> rat \<Rightarrow> bool" where
  "span_ok n r =
     (case r of (s, e, c) \<Rightarrow>
        (s = - 1 \<and> e = - 1 \<and> c = 0) \<or> (s = 0 \<and> e = - 1 \<and> c = 1)
        \<or> (0 \<le> s \<and> s \<le> e \<and> e < int n \<and> 0 < c))"

text \<open>
  An entry of \<open>supported_paras\<close> for a document with content \<open>c\<close>: the text is the slice of
  \<open>c\<close> between the stored offsets, and the offsets are one of the three results above.
\<close>

definition entry_ok :: "ustr \<Rightarrow> sup_para \<Rightarrow> bool" where
  "entry_ok c p =
     (case p of (found, st, en) \<Rightarrow>
        found = py_slice c st (en + 1)
        \<and> ((st = - 1 \<and> en = - 1) \<or> (st = 0 \<and> en = - 1)
           \<or> (0 \<le> st \<and> st \<le> en \<and> en < int (length c))))"

text \<open>Every entry of \<open>supported_paras\<close> belongs to a document that exists and has content.\<close>

definition sup_ok :: "'d document_scheme list \<Rightarrow> (nat \<rightharpoonup> sup_para list) \<Rightarrow> bool" where
  "sup_ok docs m =
     (\<forall>d ps. m d = Some ps \<longrightarrow>
        (\<exists>doc c. py_get docs (int d - 1) = Inr doc \<and> content doc = Some c
           \<and> list_all (entry_ok c) ps))"

text \<open>A label that refers to a document and to a span of its content.\<close>

definition label_ok :: "'d document_scheme list \<Rightarrow> answer_label \<Rightarrow> bool" where
  "label_ok docs l =
     (case l of (d, st, en) \<Rightarrow>
        - 1 \<le> d
        \<and> (\<exists>doc c. py_get docs d = Inr doc \<and> content doc = Some c
             \<and> 0 \<le> st \<and> st \<le> en \<and> en < int (length c)))"

text \<open>
  The confidence with which an answer text is located inside a supporting paragraph:
  the third component of \<open>find_best_match_index(answer_str, doc_support_para[0])\<close>.
\<close>

definition conf :: "(ustr \<Rightarrow> ustr \<Rightarrow> rat) \<Rightarrow> ustr \<Rightarrow> sup_para \<Rightarrow> rat" where
  "conf rouge answer_str p = snd (snd (find_best_match_index rouge answer_str (fst p)))"

text \<open>
  The answer texts and labels that the loop over the pieces of the answer appends for
  one document id, started from empty lists.
\<close>

definition strs_result :: "(ustr \<Rightarrow> ustr \<Rightarrow> rat) \<Rightarrow> nat \<Rightarrow> sup_para list \<Rightarrow> ustr list
    \<Rightarrow> ustr list \<times> answer_label list" where
  "strs_result rouge d ps pieces =
     (case answer_strs_loop rouge d ps pieces ([], []) of Inr r \<Rightarrow> r | Inl e \<Rightarrow> ([], []))"

definition doc_answers :: "(ustr \<Rightarrow> ustr \<Rightarrow> rat) \<Rightarrow> ustr \<Rightarrow> (nat \<rightharpoonup> sup_para list) \<Rightarrow> nat
    \<Rightarrow> ustr list \<times> answer_label list" where
  "doc_answers rouge ans supported_paras d =
     (case supported_paras d of
        None \<Rightarrow> ([], [])
      | Some ps \<Rightarrow> strs_result rouge d ps (str_split ans (marker d)))"

text \<open>
  The labels emitted for document id \<open>d\<close> in a run on a sample: the labels above, with
  the dictionary \<open>supported_paras\<close> the sample's first phase produces.
\<close>

definition doc_labels :: "runtime \<Rightarrow> ('d, 's) sample_scheme \<Rightarrow> nat \<Rightarrow> answer_label list" where
  "doc_labels rt sample d =
     (case concat_paragraphs (documents sample) of
        Inl e \<Rightarrow> []
      | Inr docs \<Rightarrow>
          (case (supporting_paragraph sample, answer sample) of
             (Some sup_text, Some ans) \<Rightarrow>
               (case support_docids_loop (rouge_l rt) docs sup_text
                       (find_answer_in_docid rt sup_text) Map.empty of
                  Inl e \<Rightarrow> []
                | Inr supported_paras \<Rightarrow> snd (doc_answers (rouge_l rt) ans supported_paras d))
           | _ \<Rightarrow> []))"

section \<open>Inputs for the examples\<close>

text \<open>
  Modelled from the spec: the scorer \<open>RougeL\<close> of \<open>utils.rouge\<close>, which is not among the
  sources.  With \<open>L\<close> the length of a longest common subsequence of candidate and
  reference, \<open>P = L / len(candidate)\<close> and \<open>R = L / len(reference)\<close>, the score is
  \<open>((1 + \<beta>\<^sup>2) P R) / (R + \<beta>\<^sup>2 P)\<close> with \<open>\<beta> = 1.2\<close>, and 0 when either text is empty.
  It only fills the scorer's place in the examples below; every theorem holds for any
  scorer.
\<close>

fun lcs_length :: "'a list \<Rightarrow> 'a list \<Rightarrow> nat" where
  "lcs_length [] ys = 0"
| "lcs_length (x # xs) [] = 0"
| "lcs_length (x # xs) (y # ys) =
     (if x = y then Suc (lcs_length xs ys)
      else max (lcs_length (x # xs) ys) (lcs_length xs (y # ys)))"

definition rouge_l_score :: "ustr \<Rightarrow> ustr \<Rightarrow> rat" where
  "rouge_l_score cand ref =
     (let l = of_nat (lcs_length cand ref)
      in if l = 0 then 0
         else (let p = l / of_nat (length cand); r = l / of_nat (length ref)
               in ((1 + (6 / 5)\<^sup>2) * p * r) / (r + (6 / 5)\<^sup>2 * p)))"

text \<open>
  A runtime for the examples: the digits are the ASCII digits, and a set lists each of
  its elements once, in the order of their last occurrences.
\<close>

definition rt_ascii :: runtime where
  "rt_ascii = \<lparr>rouge_l = rouge_l_score,
               digit_value = (\<lambda>c. if 48 \<le> c \<and> c \<le> 57 then Some (c - 48) else None),
               set_order = remdups\<rparr>"

text \<open>
  Documents for the ranker.  With a metric that is constantly 0 the ranking visits the
  paragraphs in the order of their lengths, the shortest first.
\<close>

definition doc_two_paras :: seg_document where
  "doc_two_paras = \<lparr>segmented_title = [],
     segmented_paragraphs = [[[101], [102], [103]], [[120]]]\<rparr>"

definition doc_three_paras :: seg_document where
  "doc_three_paras = \<lparr>segmented_title = [[116]],
     segmented_paragraphs = [[[120], [121], [122], [123]], [[101], [102]], [[110]]]\<rparr>"

definition doc_title_only :: seg_document where
  "doc_title_only = \<lparr>segmented_title = [[97]], segmented_paragraphs = []\<rparr>"

definition doc_tight :: seg_document where
  "doc_tight = \<lparr>segmented_title = [[116]], segmented_paragraphs = [[[101], [102]]]\<rparr>"

definition doc_exact_fit :: seg_document where
  "doc_exact_fit = \<lparr>segmented_title = [], segmented_paragraphs = [[[101], [102], [103]]]\<rparr>"

definition sample_plain :: "unit sample" where
  "sample_plain = \<lparr>documents = [\<lparr>paragraphs = Some [[97, 98], [99]], content = None\<rparr>],
     supporting_paragraph = None, answer = None, answer_labels = None, fake_answers = None,
     ceil_rougel = None\<rparr>"

text \<open>
  Samples with one document \<open>abcd\<close>, located by the supporting paragraph \<open>abc\<close>; the
  answer is \<open>bc\<close>, the full stop alone, \<open>bc\<close> under the marker of a second document that
  does not exist, \<open>bc\<close> with both texts under the marker \<open>@content0@\<close>, and \<open>bc\<close> without
  any marker.  \<open>sample_unlocated\<close> has a supporting
  paragraph that shares no character with the document, and \<open>sample_two_docs\<close> has two
  documents with an answer part in each.
\<close>

definition sample_one :: "unit sample" where
  "sample_one = \<lparr>documents = [\<lparr>paragraphs = Some [[97, 98], [99, 100]], content = None\<rparr>],
     supporting_paragraph = Some (marker 1 @ [97, 98, 99] @ marker 1),
     answer = Some (marker 1 @ [98, 99] @ marker 1),
     answer_labels = None, fake_answers = None, ceil_rougel = None\<rparr>"


definition sample_two_docs :: "unit sample" where
  "sample_two_docs =
     \<lparr>documents = [\<lparr>paragraphs = Some [[97, 98, 99]], content = None\<rparr>,
                   \<lparr>paragraphs = Some [[100, 101, 102]], content = None\<rparr>],
      supporting_paragraph =
        Some (marker 1 @ [97, 98, 99] @ marker 1 @ marker 2 @ [100, 101, 102] @ marker 2),
      answer = Some (marker 1 @ [98] @ marker 1 @ marker 2 @ [101, 102] @ marker 2),
      answer_labels = None, fake_answers = None, ceil_rougel = None\<rparr>"

definition sample_two_docs_out :: "unit sample" where
  "sample_two_docs_out =
     sample_two_docs\<lparr>documents := [\<lparr>paragraphs = None, content = Some [97, 98, 99]\<rparr>,
                                   \<lparr>paragraphs = None, content = Some [100, 101, 102]\<rparr>],
       answer_labels := Some [(0, 1, 1), (1, 1, 2)],
       fake_answers := Some [[98], [101, 102]], ceil_rougel := Some 1\<rparr>"

definition sample_full_stop :: "unit sample" where
  "sample_full_stop = sample_one\<lparr>answer := Some (marker 1 @ [12290] @ marker 1)\<rparr>"

definition sample_absent_doc :: "unit sample" where
  "sample_absent_doc = sample_one\<lparr>answer := Some (marker 2 @ [98, 99] @ marker 2)\<rparr>"

definition sample_unlocated :: "unit sample" where
  "sample_unlocated =
     sample_one\<lparr>supporting_paragraph := Some (marker 1 @ [120, 121, 122] @ marker 1)\<rparr>"


definition sample_no_marker :: "unit sample" where
  "sample_no_marker = sample_one\<lparr>answer := Some [98, 99]\<rparr>"

section \<open>Facts about the string operations\<close>

lemma str_index_Some:
  "str_index sub s = Some i \<Longrightarrow>
     i + length sub \<le> length s \<and> prefix sub (drop i s) \<and> (\<forall>j<i. \<not> prefix sub (drop j s))"
proof (induction s arbitrary: i)
  case Nil
  then show ?case by (simp split: if_splits)
next
  case (Cons c cs)
  show ?case
  proof (cases "prefix sub (c # cs)")
    case True
    with Cons.prems have "i = 0" by simp
    with prefix_length_le [OF True] True show ?thesis by simp
  next
    case False
    with Cons.prems obtain k where k: "str_index sub cs = Some k" "i = Suc k"
      by auto
    from Cons.IH [OF k(1)]
    have ih: "k + length sub \<le> length cs" "prefix sub (drop k cs)"
      "\<forall>j<k. \<not> prefix sub (drop j cs)" by auto
    have "\<not> prefix sub (drop j (c # cs))" if "j < i" for j
    proof (cases j)
      case 0
      with False show ?thesis by simp
    next
      case (Suc m)
      with that k(2) ih(3) show ?thesis by simp
    qed
    with ih k(2) show ?thesis by simp
  qed
qed

lemma str_index_None:
  "str_index sub s = None \<Longrightarrow> \<not> prefix sub (drop j s)"
proof (induction s arbitrary: j)
  case Nil
  then show ?case by (simp split: if_splits)
next
  case (Cons c cs)
  then show ?case by (cases j) (auto split: if_splits)
qed

lemma str_index_occurrence:
  "s = ps @ sub @ ss \<Longrightarrow> \<exists>i\<le>length ps. str_index sub s = Some i"
proof -
  assume s: "s = ps @ sub @ ss"
  then have "prefix sub (drop (length ps) s)" by simp
  with str_index_None [of sub s "length ps"] obtain i where i: "str_index sub s = Some i"
    by (cases "str_index sub s") auto
  from str_index_Some [OF i] \<open>prefix sub (drop (length ps) s)\<close>
  have "\<not> length ps < i" by blast
  with i show ?thesis by auto
qed

lemma str_in_iff: "str_in sub s \<longleftrightarrow> (\<exists>ps ss. s = ps @ sub @ ss)"
proof
  assume "str_in sub s"
  then obtain i where i: "str_index sub s = Some i"
    by (auto simp: str_in_def)
  from str_index_Some [OF i] obtain zs where "drop i s = sub @ zs"
    by (auto simp: prefix_def)
  then have "s = take i s @ sub @ zs"
    by (metis append_take_drop_id)
  then show "\<exists>ps ss. s = ps @ sub @ ss" by blast
next
  assume "\<exists>ps ss. s = ps @ sub @ ss"
  then show "str_in sub s"
    using str_index_occurrence [of s _ sub] by (auto simp: str_in_def)
qed

lemma str_index_Nil [simp]: "str_index [] s = Some 0"
  by (cases s) simp_all

section \<open>Exact containment\<close>

text \<open>
  Claim C1.  When the fragment occurs in the container as an exact substring, the span
  locator returns the index of its first occurrence as start, start + len(fragment) - 1
  as end, and confidence 1.  The first occurrence is the least position at which the
  fragment is a prefix of the rest of the container.
\<close>

theorem find_best_match_index_exact:
  assumes "doc_content = ps @ sub_text @ ss"
  shows "\<exists>i. find_best_match_index rouge sub_text doc_content
             = (int i, int i + int (length sub_text) - 1, 1)
           \<and> i \<le> length ps
           \<and> prefix sub_text (drop i doc_content)
           \<and> (\<forall>j<i. \<not> prefix sub_text (drop j doc_content))"
proof -
  from str_index_occurrence [OF assms] obtain i
    where i: "i \<le> length ps" "str_index sub_text doc_content = Some i" by blast
  from i(2) have "str_in sub_text doc_content" by (simp add: str_in_def)
  with i(2) have "find_best_match_index rouge sub_text doc_content
      = (int i, int i + int (length sub_text) - 1, 1)"
    by (simp add: find_best_match_index_def exact_span_def Let_def)
  with i(1) str_index_Some [OF i(2)] show ?thesis by blast
qed

theorem find_best_match_index_exact_witness:
  "[97, 98, 99, 98, 99] = [97] @ [98, 99] @ [98, 99]
   \<and> (\<exists>i. find_best_match_index (\<lambda>c r. 0) [98, 99] [97, 98, 99, 98, 99]
             = (int i, int i + int (length [98, 99 :: nat]) - 1, 1)
         \<and> i \<le> length [97 :: nat]
         \<and> prefix [98, 99] (drop i [97, 98, 99, 98, 99 :: nat])
         \<and> (\<forall>j<i. \<not> prefix [98, 99] (drop j [97, 98, 99, 98, 99 :: nat])))"
  using find_best_match_index_exact [of "[97, 98, 99, 98, 99]" "[97]" "[98, 99]" "[98, 99]" "\<lambda>c r. 0"]
  by simp

section \<open>No window when the fragment is not shorter than the container\<close>

text \<open>
  Claim C9.  When none of the three exact variants succeeds (the fragment itself, the
  fragment without its trailing full stop, the fragment without its spaces) and the
  fragment is at least as long as the container, the span locator returns (-1, -1, 0):
  the start positions are \<open>range(0, len(container) - len(fragment))\<close>, which is empty,
  so no window is scored.
\<close>

theorem find_best_match_index_no_window:
  assumes "\<not> str_in sub_text doc_content"
    and "\<not> (endswith_char sub_text full_stop \<and> str_in (butlast sub_text) doc_content)"
    and "\<not> str_in (remove_char space sub_text) doc_content"
    and "length doc_content \<le> length sub_text"
  shows "find_best_match_index rouge sub_text doc_content = (- 1, - 1, 0)"
proof -
  from assms(4) have "[0..<length doc_content - length sub_text] = []"
    by simp
  then have "fuzzy_search rouge sub_text doc_content = (- 1, - 1, 0)"
    by (simp add: fuzzy_search_def)
  with assms(1-3) show ?thesis
    unfolding find_best_match_index_def by (simp only: if_False)
qed

theorem find_best_match_index_no_window_witness:
  "\<not> str_in [97, 98, 99] [97, 98, 100 :: nat]
   \<and> \<not> (endswith_char [97, 98, 99] full_stop
        \<and> str_in (butlast [97, 98, 99]) [97, 98, 100 :: nat])
   \<and> \<not> str_in (remove_char space [97, 98, 99]) [97, 98, 100]
   \<and> length [97, 98, 100 :: nat] \<le> length [97, 98, 99 :: nat]
   \<and> find_best_match_index (\<lambda>c r. 1) [97, 98, 99] [97, 98, 100] = (- 1, - 1, 0)"
proof -
  have a: "\<not> str_in [97, 98, 99] [97, 98, 100 :: nat]"
    by (simp add: str_in_def)
  have b: "\<not> (endswith_char [97, 98, 99] full_stop
      \<and> str_in (butlast [97, 98, 99]) [97, 98, 100 :: nat])"
    by (simp add: endswith_char_def full_stop_def)
  have c: "\<not> str_in (remove_char space [97, 98, 99]) [97, 98, 100]"
    by (simp add: str_in_def remove_char_def space_def)
  have d: "length [97, 98, 100 :: nat] \<le> length [97, 98, 99 :: nat]"
    by simp
  from find_best_match_index_no_window [OF a b c d, of "\<lambda>c r. 1"] a b c d
  show ?thesis by blast
qed

section \<open>Facts about the paragraph ranker\<close>

lemma sum_list_insort:
  "sum_list (map f (insort x xs)) = f x + sum_list (map f (xs :: nat list))" for f :: "nat \<Rightarrow> int"
  by (induction xs) auto

lemma sum_list_sort:
  "sum_list (map f (sort xs)) = sum_list (map f (xs :: nat list))" for f :: "nat \<Rightarrow> int"
  by (induction xs) (auto simp: sum_list_insort)

lemma py_prefix_cut_length:
  assumes "b \<le> 0" and "len \<le> M" and "b = M - len - int (length p)"
  shows "len + int (length (py_prefix p b)) \<le> M"
  using assms by (auto simp: py_prefix_def py_slice_def Let_def)

lemma select_loop_budget:
  "len \<le> M \<Longrightarrow> len = c + (\<Sum>i\<leftarrow>ids. int (length (paras ! i)) + 1) \<Longrightarrow>
   sel = select_loop M paras infos len ids \<Longrightarrow>
   c + (\<Sum>i\<leftarrow>selected_para_ids sel. int (length (paras ! i)) + 1)
     + (if last_para_id sel > - 1
        then int (length (py_prefix (paras ! nat (last_para_id sel)) (last_para_cut_idx sel)))
        else 0) \<le> M"
proof (induction infos arbitrary: len ids sel)
  case Nil
  then show ?case by simp
next
  case (Cons info infos)
  define pid where "pid = snd (snd info)"
  define len' where "len' = len + int (length (paras ! pid)) + 1"
  show ?case
  proof (cases "len' \<le> M")
    case True
    have eq: "sel = select_loop M paras infos len' (ids @ [pid])"
      using Cons.prems(3) True by (simp add: pid_def len'_def Let_def)
    have "len' = c + (\<Sum>i\<leftarrow>ids @ [pid]. int (length (paras ! i)) + 1)"
      using Cons.prems(2) by (simp add: len'_def)
    from Cons.IH [OF True this eq] show ?thesis .
  next
    case False
    have sel: "sel = \<lparr>selected_para_ids = ids, last_para_id = int pid,
        last_para_cut_idx = M - len' + 1\<rparr>"
      using Cons.prems(3) False by (simp add: pid_def len'_def Let_def)
    have "len + int (length (py_prefix (paras ! pid) (M - len' + 1))) \<le> M"
      using False Cons.prems(1) by (intro py_prefix_cut_length) (auto simp: len'_def)
    with Cons.prems(2) show ?thesis by (simp add: sel)
  qed
qed

lemma select_loop_prefix:
  "\<exists>k. selected_para_ids (select_loop M paras infos len ids)
         = ids @ map (\<lambda>x. snd (snd x)) (take k infos)"
proof (induction infos arbitrary: len ids)
  case Nil
  then show ?case by simp
next
  case (Cons info infos)
  define pid where "pid = snd (snd info)"
  define len' where "len' = len + int (length (paras ! pid)) + 1"
  show ?case
  proof (cases "len' \<le> M")
    case True
    from Cons.IH [of len' "ids @ [pid]"] obtain k
      where "selected_para_ids (select_loop M paras infos len' (ids @ [pid]))
          = (ids @ [pid]) @ map (\<lambda>x. snd (snd x)) (take k infos)" by blast
    with True have "selected_para_ids (select_loop M paras (info # infos) len ids)
        = ids @ map (\<lambda>x. snd (snd x)) (take (Suc k) (info # infos))"
      by (simp add: pid_def len'_def Let_def)
    then show ?thesis by blast
  next
    case False
    then have "selected_para_ids (select_loop M paras (info # infos) len ids)
        = ids @ map (\<lambda>x. snd (snd x)) (take 0 (info # infos))"
      by (simp add: pid_def len'_def Let_def)
    then show ?thesis by blast
  qed
qed

lemma select_loop_last:
  "last_para_id (select_loop M paras infos len ids) > - 1 \<Longrightarrow>
   \<exists>k<length infos. selected_para_ids (select_loop M paras infos len ids)
         = ids @ map (\<lambda>x. snd (snd x)) (take k infos)
      \<and> last_para_id (select_loop M paras infos len ids) = int (snd (snd (infos ! k)))"
proof (induction infos arbitrary: len ids)
  case Nil
  then show ?case by simp
next
  case (Cons info infos)
  define pid where "pid = snd (snd info)"
  define len' where "len' = len + int (length (paras ! pid)) + 1"
  show ?case
  proof (cases "len' \<le> M")
    case True
    then have eq: "select_loop M paras (info # infos) len ids
        = select_loop M paras infos len' (ids @ [pid])"
      by (simp add: pid_def len'_def Let_def)
    with Cons.prems have "last_para_id (select_loop M paras infos len' (ids @ [pid])) > - 1"
      by simp
    from Cons.IH [OF this] obtain k where k: "k < length infos"
      "selected_para_ids (select_loop M paras infos len' (ids @ [pid]))
          = (ids @ [pid]) @ map (\<lambda>x. snd (snd x)) (take k infos)"
      "last_para_id (select_loop M paras infos len' (ids @ [pid])) = int (snd (snd (infos ! k)))"
      by blast
    have "Suc k < length (info # infos)
      \<and> selected_para_ids (select_loop M paras (info # infos) len ids)
         = ids @ map (\<lambda>x. snd (snd x)) (take (Suc k) (info # infos))
      \<and> last_para_id (select_loop M paras (info # infos) len ids)
         = int (snd (snd ((info # infos) ! Suc k)))"
      unfolding eq using k pid_def by simp
    then show ?thesis by blast
  next
    case False
    then have "0 < length (info # infos)
      \<and> selected_para_ids (select_loop M paras (info # infos) len ids)
         = ids @ map (\<lambda>x. snd (snd x)) (take 0 (info # infos))
      \<and> last_para_id (select_loop M paras (info # infos) len ids)
         = int (snd (snd ((info # infos) ! 0)))"
      by (simp add: pid_def len'_def Let_def)
    then show ?thesis by blast
  qed
qed

lemma para_infos_ids:
  "map (\<lambda>x. snd (snd x)) (para_infos paras scores) = [0..<min (length paras) (length scores)]"
proof -
  have "(\<lambda>x. snd (snd x)) \<circ> (\<lambda>(p_idx, para_tokens, para_score).
      (para_score :: rat, length (para_tokens :: token list), p_idx :: nat)) = fst"
    by (auto simp: fun_eq_iff)
  then show ?thesis by (simp add: para_infos_def)
qed

lemma sorted_infos_ids:
  "distinct (map (\<lambda>x. snd (snd x)) (sort_para_infos (para_infos paras scores)))
   \<and> set (map (\<lambda>x. snd (snd x)) (sort_para_infos (para_infos paras scores)))
       = {0..<min (length paras) (length scores)}"
proof -
  let ?g = "\<lambda>x :: rat \<times> nat \<times> nat. snd (snd x)"
  let ?infos = "para_infos paras scores"
  have d: "distinct (map ?g ?infos)" by (simp add: para_infos_ids)
  then have "distinct ?infos" "inj_on ?g (set ?infos)"
    by (simp_all add: distinct_map)
  then have "distinct (map ?g (sort_para_infos ?infos))"
    by (simp add: distinct_map sort_para_infos_def)
  moreover have "set (map ?g (sort_para_infos ?infos)) = set (map ?g ?infos)"
    by (simp add: sort_para_infos_def)
  ultimately show ?thesis by (simp add: para_infos_ids)
qed


lemma select_paragraphs_budget:
  assumes "int (length (segmented_title doc)) + 1 \<le> M"
    and "sel = select_paragraphs metric question M doc"
  shows "int (length (segmented_title doc)) + 1
           + (\<Sum>i\<leftarrow>selected_para_ids sel. int (length (segmented_paragraphs doc ! i)) + 1)
           + (if last_para_id sel > - 1
              then int (length (py_prefix (segmented_paragraphs doc ! nat (last_para_id sel))
                                  (last_para_cut_idx sel)))
              else 0) \<le> M"
proof -
  define sel0 where "sel0 = select_loop M (segmented_paragraphs doc)
      (sort_para_infos (para_infos (segmented_paragraphs doc)
         (calc_paragraph_match_scores metric doc question)))
      (int (length (segmented_title doc)) + 1) []"
  have sel: "sel = sel0\<lparr>selected_para_ids := sort (selected_para_ids sel0)\<rparr>"
    using assms(2) by (simp add: select_paragraphs_def sel0_def Let_def)
  have "int (length (segmented_title doc)) + 1
      = int (length (segmented_title doc)) + 1
        + (\<Sum>i\<leftarrow>[]. int (length (segmented_paragraphs doc ! i)) + 1)"
    by simp
  from select_loop_budget [OF assms(1) this sel0_def]
  show ?thesis by (auto simp: sel sum_list_sort split: if_splits)
qed

lemma py_prefix_snoc: "py_prefix (xs @ [x]) (- 1) = xs"
  by (simp add: py_prefix_def py_slice_def Let_def)

lemma concat_splitter_snoc:
  "concat (map (\<lambda>seg_para. seg_para @ [splitter]) (t # segs))
     = (t @ concat (map (\<lambda>p. splitter # p) segs)) @ [splitter]"
  by (induction segs arbitrary: t) simp_all

lemma concat_passage_explicit:
  "concat_passage (t # segs) = t @ concat (map (\<lambda>p. splitter # p) segs)"
  unfolding concat_passage_def concat_splitter_snoc by (rule py_prefix_snoc)

lemma passage_explicit:
  assumes "sel = select_paragraphs metric question max_doc_len doc"
  shows "segmented_passage (extract_paragraph_doc metric question max_doc_len doc)
     = segmented_title doc
       @ concat (map (\<lambda>i. splitter # segmented_paragraphs doc ! i) (selected_para_ids sel))
       @ (if last_para_id sel > - 1
          then splitter # py_prefix (segmented_paragraphs doc ! nat (last_para_id sel))
                            (last_para_cut_idx sel)
          else [])"
proof -
  have "segmented_passage (extract_paragraph_doc metric question max_doc_len doc)
      = concat_passage (kept_paragraphs doc sel)"
    by (simp add: extract_paragraph_doc_def Let_def assms)
  also have "kept_paragraphs doc sel = segmented_title doc #
      (map (\<lambda>i. segmented_paragraphs doc ! i) (selected_para_ids sel)
       @ (if last_para_id sel > - 1
          then [py_prefix (segmented_paragraphs doc ! nat (last_para_id sel))
                  (last_para_cut_idx sel)]
          else []))"
    by (simp add: kept_paragraphs_def)
  finally show ?thesis
    by (simp add: concat_passage_explicit comp_def)
qed

lemma py_prefix_cut_exact:
  assumes "b < 0" and "len \<le> M" and "b = M - len - int (length p)"
  shows "len + int (length (py_prefix p b)) = M"
  using assms by (auto simp: py_prefix_def py_slice_def Let_def)

lemma select_loop_cut:
  "len \<le> M \<Longrightarrow> len = c + (\<Sum>i\<leftarrow>ids. int (length (paras ! i)) + 1) \<Longrightarrow>
   sel = select_loop M paras infos len ids \<Longrightarrow> last_para_id sel > - 1 \<Longrightarrow>
   last_para_cut_idx sel \<le> 0
   \<and> (last_para_cut_idx sel < 0 \<longrightarrow>
        c + (\<Sum>i\<leftarrow>selected_para_ids sel. int (length (paras ! i)) + 1)
          + int (length (py_prefix (paras ! nat (last_para_id sel)) (last_para_cut_idx sel)))
        = M)"
proof (induction infos arbitrary: len ids sel)
  case Nil
  then show ?case by simp
next
  case (Cons info infos)
  define pid where "pid = snd (snd info)"
  define len' where "len' = len + int (length (paras ! pid)) + 1"
  show ?case
  proof (cases "len' \<le> M")
    case True
    have eq: "sel = select_loop M paras infos len' (ids @ [pid])"
      using Cons.prems(3) True by (simp add: pid_def len'_def Let_def)
    have "len' = c + (\<Sum>i\<leftarrow>ids @ [pid]. int (length (paras ! i)) + 1)"
      using Cons.prems(2) by (simp add: len'_def)
    from Cons.IH [OF True this eq Cons.prems(4)] show ?thesis .
  next
    case False
    have sel: "sel = \<lparr>selected_para_ids = ids, last_para_id = int pid,
        last_para_cut_idx = M - len' + 1\<rparr>"
      using Cons.prems(3) False by (simp add: pid_def len'_def Let_def)
    have le: "M - len' + 1 \<le> 0" using False by simp
    have "len + int (length (py_prefix (paras ! pid) (M - len' + 1))) = M"
      if "M - len' + 1 < 0"
      using that Cons.prems(1) by (intro py_prefix_cut_exact) (auto simp: len'_def)
    with Cons.prems(2) le show ?thesis by (simp add: sel)
  qed
qed

lemma select_loop_all:
  "last_para_id (select_loop M paras infos len ids) = - 1 \<Longrightarrow>
   selected_para_ids (select_loop M paras infos len ids) = ids @ map (\<lambda>x. snd (snd x)) infos"
proof (induction infos arbitrary: len ids)
  case Nil
  then show ?case by simp
next
  case (Cons info infos)
  define pid where "pid = snd (snd info)"
  define len' where "len' = len + int (length (paras ! pid)) + 1"
  show ?case
  proof (cases "len' \<le> M")
    case True
    then have eq: "select_loop M paras (info # infos) len ids
        = select_loop M paras infos len' (ids @ [pid])"
      by (simp add: pid_def len'_def Let_def)
    from Cons.prems Cons.IH [of len' "ids @ [pid]"] show ?thesis
      unfolding eq by (simp add: pid_def)
  next
    case False
    then have "last_para_id (select_loop M paras (info # infos) len ids) = int pid"
      by (simp add: pid_def len'_def Let_def)
    with Cons.prems show ?thesis by simp
  qed
qed

lemma sort_permutation_upt:
  assumes "distinct xs" and "set xs = {0..<n}"
  shows "sort xs = [0..<n]"
proof -
  have "sorted (sort xs)" "distinct (sort xs)" "set (sort xs) = set [0..<n]"
    using assms by simp_all
  moreover have "sorted [0..<n]" "distinct [0..<n]" by simp_all
  ultimately show ?thesis
    by (metis sorted_distinct_set_unique)
qed

lemma select_paragraphs_ids:
  "sorted_wrt (<) (selected_para_ids (select_paragraphs metric question max_doc_len doc))
   \<and> distinct (kept_para_ids (select_paragraphs metric question max_doc_len doc))
   \<and> set (kept_para_ids (select_paragraphs metric question max_doc_len doc))
       \<subseteq> {0..<length (segmented_paragraphs doc)}"
proof -
  let ?g = "\<lambda>x :: rat \<times> nat \<times> nat. snd (snd x)"
  define infos where "infos = sort_para_infos (para_infos (segmented_paragraphs doc)
         (calc_paragraph_match_scores metric doc question))"
  define sel0 where "sel0 = select_loop max_doc_len (segmented_paragraphs doc) infos
      (int (length (segmented_title doc)) + 1) []"
  define sel where "sel = select_paragraphs metric question max_doc_len doc"
  have sel: "sel = sel0\<lparr>selected_para_ids := sort (selected_para_ids sel0)\<rparr>"
    by (simp add: sel_def select_paragraphs_def sel0_def infos_def Let_def)
  have ids: "distinct (map ?g infos)"
    "set (map ?g infos) = {0..<length (segmented_paragraphs doc)}"
    using sorted_infos_ids [of "segmented_paragraphs doc"
        "calc_paragraph_match_scores metric doc question"]
    by (simp_all add: infos_def calc_paragraph_match_scores_def)
  have kept: "\<exists>k. kept_para_ids sel0 = map ?g (take k infos)"
  proof (cases "last_para_id sel0 > - 1")
    case True
    from select_loop_last [OF True [unfolded sel0_def]] obtain k where k: "k < length infos"
      "selected_para_ids sel0 = map ?g (take k infos)"
      "last_para_id sel0 = int (?g (infos ! k))"
      by (auto simp: sel0_def)
    then have "kept_para_ids sel0 = map ?g (take (Suc k) infos)"
      using True by (simp add: kept_para_ids_def take_Suc_conv_app_nth)
    then show ?thesis by blast
  next
    case False
    with select_loop_prefix [of max_doc_len "segmented_paragraphs doc" infos
        "int (length (segmented_title doc)) + 1" "[]"]
    show ?thesis by (auto simp: kept_para_ids_def sel0_def)
  qed
  then obtain k where k: "kept_para_ids sel0 = map ?g (take k infos)" by blast
  have d0: "distinct (kept_para_ids sel0)"
    unfolding k using ids(1) by (simp add: take_map [symmetric])
  have s0: "set (kept_para_ids sel0) \<subseteq> {0..<length (segmented_paragraphs doc)}"
    unfolding k using ids(2) set_take_subset [of k "map ?g infos"]
    by (simp add: take_map [symmetric])
  have "distinct (selected_para_ids sel0)"
    using d0 by (simp add: kept_para_ids_def)
  then have "sorted_wrt (<) (selected_para_ids sel)"
    by (simp add: sel strict_sorted_iff)
  moreover have "distinct (kept_para_ids sel)"
    using d0 by (auto simp: kept_para_ids_def sel split: if_splits)
  moreover have "set (kept_para_ids sel) \<subseteq> {0..<length (segmented_paragraphs doc)}"
    using s0 by (auto simp: kept_para_ids_def sel split: if_splits)
  ultimately show ?thesis by (simp add: sel_def)
qed

lemma select_paragraphs_unfold:
  "select_paragraphs metric question max_doc_len doc
     = (select_loop max_doc_len (segmented_paragraphs doc)
          (sort_para_infos (para_infos (segmented_paragraphs doc)
             (calc_paragraph_match_scores metric doc question)))
          (int (length (segmented_title doc)) + 1) [])
       \<lparr>selected_para_ids :=
          sort (selected_para_ids
            (select_loop max_doc_len (segmented_paragraphs doc)
               (sort_para_infos (para_infos (segmented_paragraphs doc)
                  (calc_paragraph_match_scores metric doc question)))
               (int (length (segmented_title doc)) + 1) []))\<rparr>"
  by (simp add: select_paragraphs_def Let_def)

lemma select_paragraphs_cut:
  assumes "int (length (segmented_title doc)) + 1 \<le> M"
    and "sel = select_paragraphs metric question M doc"
    and "last_para_id sel > - 1"
  shows "last_para_cut_idx sel \<le> 0
   \<and> (last_para_cut_idx sel < 0 \<longrightarrow>
        int (length (segmented_title doc)) + 1
          + (\<Sum>i\<leftarrow>selected_para_ids sel. int (length (segmented_paragraphs doc ! i)) + 1)
          + int (length (py_prefix (segmented_paragraphs doc ! nat (last_para_id sel))
                           (last_para_cut_idx sel)))
        = M)"
proof -
  define sel0 where "sel0 = select_loop M (segmented_paragraphs doc)
      (sort_para_infos (para_infos (segmented_paragraphs doc)
         (calc_paragraph_match_scores metric doc question)))
      (int (length (segmented_title doc)) + 1) []"
  have sel: "sel = sel0\<lparr>selected_para_ids := sort (selected_para_ids sel0)\<rparr>"
    unfolding assms(2) sel0_def by (rule select_paragraphs_unfold)
  have start: "int (length (segmented_title doc)) + 1
      = int (length (segmented_title doc)) + 1
        + (\<Sum>i\<leftarrow>[]. int (length (segmented_paragraphs doc ! i)) + 1)"
    by simp
  have "last_para_id sel0 > - 1" using assms(3) by (simp add: sel)
  from select_loop_cut [OF assms(1) start sel0_def this]
  show ?thesis by (simp add: sel sum_list_sort)
qed

lemma select_paragraphs_all:
  assumes "sel = select_paragraphs metric question M doc" and "last_para_id sel = - 1"
  shows "selected_para_ids sel = [0..<length (segmented_paragraphs doc)]"
proof -
  let ?g = "\<lambda>x :: rat \<times> nat \<times> nat. snd (snd x)"
  define infos where "infos = sort_para_infos (para_infos (segmented_paragraphs doc)
         (calc_paragraph_match_scores metric doc question))"
  define sel0 where "sel0 = select_loop M (segmented_paragraphs doc) infos
      (int (length (segmented_title doc)) + 1) []"
  have sel: "sel = sel0\<lparr>selected_para_ids := sort (selected_para_ids sel0)\<rparr>"
    unfolding assms(1) sel0_def infos_def by (rule select_paragraphs_unfold)
  have "last_para_id sel0 = - 1" using assms(2) by (simp add: sel)
  from select_loop_all [OF this [unfolded sel0_def]]
  have ids: "selected_para_ids sel0 = map ?g infos" by (simp add: sel0_def)
  have "distinct (map ?g infos)"
    "set (map ?g infos) = {0..<length (segmented_paragraphs doc)}"
    using sorted_infos_ids [of "segmented_paragraphs doc"
        "calc_paragraph_match_scores metric doc question"]
    by (simp_all add: infos_def calc_paragraph_match_scores_def)
  from sort_permutation_upt [OF this] show ?thesis
    by (simp add: sel ids)
qed

lemma select_paragraphs_slot:
  assumes "sel = select_paragraphs metric question M doc" and "segmented_paragraphs doc \<noteq> []"
  shows "selected_para_ids sel \<noteq> [] \<or> last_para_id sel > - 1"
proof (rule ccontr)
  assume "\<not> (selected_para_ids sel \<noteq> [] \<or> last_para_id sel > - 1)"
  then have e: "selected_para_ids sel = []" and "\<not> last_para_id sel > - 1" by simp_all
  moreover have "last_para_id sel = - 1 \<or> last_para_id sel > - 1"
  proof -
    have "last_para_id (select_loop M' paras infos len ids) \<ge> - 1" for M' paras infos len ids
      by (induction infos arbitrary: len ids) (auto simp: Let_def)
    then have "last_para_id sel \<ge> - 1"
      unfolding assms(1) select_paragraphs_unfold by simp
    then show ?thesis by linarith
  qed
  ultimately have "last_para_id sel = - 1" by simp
  from select_paragraphs_all [OF assms(1) this] e
  have "[0..<length (segmented_paragraphs doc)] = []" by simp
  with assms(2) show False by simp
qed

lemmas ranker_eval =
  extract_paragraph_doc_def select_paragraphs_def kept_paragraphs_def kept_para_ids_def
  concat_passage_def py_prefix_def py_slice_def calc_paragraph_match_scores_def para_infos_def
  sort_para_infos_def Let_def

section \<open>The length budget of the passage\<close>

text \<open>
  Claim C5, as amended.  Let the budget \<open>max_doc_len\<close> be at least \<open>len(title) + 1\<close>.  The
  passage is the title, then each paragraph kept whole, then, if a paragraph overflowed
  the budget (\<open>last_para_id > -1\<close>), the slice \<open>[:last_para_cut_idx]\<close> of that paragraph,
  every part after the title preceded by one splitter token.  The passage has at most
  \<open>max_doc_len\<close> tokens.  The cut index of an overflowing paragraph is at most 0; if it is
  negative, the passage has exactly \<open>max_doc_len\<close> tokens.  If no paragraph overflowed,
  every paragraph of the document is kept whole.  If the budget is at least
  \<open>len(title) + 2\<close> and the document has a paragraph, then a paragraph is kept whole or a
  non-empty slice of one is kept; the case that no paragraph is kept whole and the cut
  index is 0 (the first paragraph visited has exactly \<open>max_doc_len - len(title) - 1\<close>
  tokens) is left out.  Below the budget \<open>len(title) + 1\<close> the passage can be longer than
  the budget, because the title is never cut; a document without paragraphs keeps
  none; and at the budget \<open>len(title) + 1\<close> nothing is left for a paragraph.
\<close>

theorem extract_paragraph_budget:
  assumes "int (length (segmented_title doc)) + 1 \<le> max_doc_len"
    and "sel = select_paragraphs metric question max_doc_len doc"
    and "passage = segmented_passage (extract_paragraph_doc metric question max_doc_len doc)"
  shows "int (length passage) \<le> max_doc_len
    \<and> passage
        = segmented_title doc
          @ concat (map (\<lambda>i. splitter # segmented_paragraphs doc ! i) (selected_para_ids sel))
          @ (if last_para_id sel > - 1
             then splitter # py_prefix (segmented_paragraphs doc ! nat (last_para_id sel))
                               (last_para_cut_idx sel)
             else [])
    \<and> (last_para_id sel > - 1 \<longrightarrow> last_para_cut_idx sel \<le> 0)
    \<and> (last_para_id sel > - 1 \<and> last_para_cut_idx sel < 0
         \<longrightarrow> int (length passage) = max_doc_len)
    \<and> (last_para_id sel = - 1
         \<longrightarrow> selected_para_ids sel = [0..<length (segmented_paragraphs doc)])
    \<and> (int (length (segmented_title doc)) + 2 \<le> max_doc_len
          \<and> segmented_paragraphs doc \<noteq> []
          \<and> \<not> (selected_para_ids sel = [] \<and> last_para_cut_idx sel = 0)
         \<longrightarrow> selected_para_ids sel \<noteq> []
             \<or> (last_para_id sel > - 1
                 \<and> py_prefix (segmented_paragraphs doc ! nat (last_para_id sel))
                      (last_para_cut_idx sel) \<noteq> []))"
proof -
  let ?T = "int (length (segmented_title doc))"
  let ?S = "\<Sum>i\<leftarrow>selected_para_ids sel. int (length (segmented_paragraphs doc ! i)) + 1"
  let ?cut = "py_prefix (segmented_paragraphs doc ! nat (last_para_id sel)) (last_para_cut_idx sel)"
  note p = passage_explicit [OF assms(2), folded assms(3)]
  have sum: "int (\<Sum>x\<leftarrow>ids. Suc (length (segmented_paragraphs doc ! x)))
      = (\<Sum>i\<leftarrow>ids. int (length (segmented_paragraphs doc ! i)) + 1)" for ids
    by (induction ids) simp_all
  have len: "int (length passage)
      = ?T + ?S + (if last_para_id sel > - 1 then int (length ?cut) + 1 else 0)"
    unfolding p by (simp add: length_concat comp_def sum)
  have budget: "?T + 1 + ?S + (if last_para_id sel > - 1 then int (length ?cut) else 0)
      \<le> max_doc_len"
    by (rule select_paragraphs_budget [OF assms(1,2)])
  have c1: "int (length passage) \<le> max_doc_len"
    using len budget by (simp split: if_splits)
  have c3: "int (length passage) = max_doc_len"
    if "last_para_id sel > - 1 \<and> last_para_cut_idx sel < 0"
    using select_paragraphs_cut [OF assms(1,2)] that len by simp
  have c4: "selected_para_ids sel = [0..<length (segmented_paragraphs doc)]"
    if "last_para_id sel = - 1"
    using that by (rule select_paragraphs_all [OF assms(2)])
  have c5: "selected_para_ids sel \<noteq> [] \<or> (last_para_id sel > - 1 \<and> ?cut \<noteq> [])"
    if h: "?T + 2 \<le> max_doc_len \<and> segmented_paragraphs doc \<noteq> []
          \<and> \<not> (selected_para_ids sel = [] \<and> last_para_cut_idx sel = 0)"
  proof (cases "selected_para_ids sel = []")
    case False
    then show ?thesis by simp
  next
    case True
    with select_paragraphs_slot [OF assms(2)] h have last: "last_para_id sel > - 1" by simp
    from True h have "last_para_cut_idx sel \<noteq> 0" by simp
    with select_paragraphs_cut [OF assms(1,2) last]
    have "?T + 1 + ?S + int (length ?cut) = max_doc_len" by simp
    with True have "?T + 1 + int (length ?cut) = max_doc_len" by simp
    moreover from h have "?T + 2 \<le> max_doc_len" by simp
    ultimately have "0 < int (length ?cut)" by linarith
    then have "?cut \<noteq> []" by auto
    with last show ?thesis by simp
  qed
  show ?thesis
  proof (intro conjI impI)
    show "int (length passage) \<le> max_doc_len" by (rule c1)
    show "passage
        = segmented_title doc
          @ concat (map (\<lambda>i. splitter # segmented_paragraphs doc ! i) (selected_para_ids sel))
          @ (if last_para_id sel > - 1 then splitter # ?cut else [])" by (rule p)
  next
    assume "last_para_id sel > - 1"
    from select_paragraphs_cut [OF assms(1,2) this]
    show "last_para_cut_idx sel \<le> 0" by simp
  next
    assume "last_para_id sel > - 1 \<and> last_para_cut_idx sel < 0"
    then show "int (length passage) = max_doc_len" by (rule c3)
  next
    assume "last_para_id sel = - 1"
    then show "selected_para_ids sel = [0..<length (segmented_paragraphs doc)]" by (rule c4)
  next
    assume "?T + 2 \<le> max_doc_len \<and> segmented_paragraphs doc \<noteq> []
          \<and> \<not> (selected_para_ids sel = [] \<and> last_para_cut_idx sel = 0)"
    then show "selected_para_ids sel \<noteq> [] \<or> (last_para_id sel > - 1 \<and> ?cut \<noteq> [])"
      by (rule c5)
  qed
qed

theorem extract_paragraph_budget_witness:
  "int (length (segmented_title doc_two_paras)) + 1 \<le> 4
   \<and> select_paragraphs (\<lambda>p q. 0) [] 4 doc_two_paras
       = \<lparr>selected_para_ids = [1], last_para_id = 0, last_para_cut_idx = - 2\<rparr>
   \<and> segmented_passage (extract_paragraph_doc (\<lambda>p q. 0) [] 4 doc_two_paras)
       = [splitter, [120], splitter, [101]]
   \<and> int (length (segmented_passage (extract_paragraph_doc (\<lambda>p q. 0) [] 4 doc_two_paras))) = 4"
proof -
  have h: "int (length (segmented_title doc_two_paras)) + 1 \<le> 4"
    by (simp add: doc_two_paras_def)
  have s: "select_paragraphs (\<lambda>p q. 0) [] 4 doc_two_paras
       = \<lparr>selected_para_ids = [1], last_para_id = 0, last_para_cut_idx = - 2\<rparr>"
    by (simp add: doc_two_paras_def select_paragraphs_def calc_paragraph_match_scores_def
        para_infos_def sort_para_infos_def Let_def)
  from extract_paragraph_budget [OF h refl refl, of "\<lambda>p q. 0" "[]"] h s
  show ?thesis by (simp add: doc_two_paras_def py_prefix_def py_slice_def)
qed

theorem extract_paragraph_budget_counterexample:
  "\<not> int (length (segmented_passage (extract_paragraph_doc (\<lambda>p q. 0) [] 0 doc_title_only))) \<le> 0
   \<and> int (length (segmented_title doc_title_only)) + 1 \<le> 2
   \<and> segmented_passage (extract_paragraph_doc (\<lambda>p q. 0) [] 2 doc_title_only)
       = segmented_title doc_title_only
   \<and> int (length (segmented_title doc_tight)) + 1 \<le> 2
   \<and> segmented_paragraphs doc_tight \<noteq> []
   \<and> segmented_passage (extract_paragraph_doc (\<lambda>p q. 0) [] 2 doc_tight)
       = segmented_title doc_tight @ [splitter]
   \<and> int (length (segmented_title doc_exact_fit)) + 2 \<le> 4
   \<and> segmented_paragraphs doc_exact_fit = [[[101], [102], [103]]]
   \<and> segmented_passage (extract_paragraph_doc (\<lambda>p q. 0) [] 4 doc_exact_fit)
       = segmented_title doc_exact_fit @ [splitter]"
  by (simp add: ranker_eval doc_title_only_def doc_tight_def doc_exact_fit_def)

section \<open>The order of the kept paragraphs\<close>

text \<open>
  Claim C6, as amended.  After the title the passage holds the paragraphs kept whole, in
  strictly ascending order of their original indices, whatever order the ranking
  visited them in; they are paragraphs of the document.  If a paragraph overflowed the
  budget, its slice comes after all of them, whatever its original index; it is a
  paragraph of the document that is not among those kept whole.  So the order is
  ascending among the paragraphs kept whole only.
\<close>

theorem selected_paragraphs_ascending:
  assumes "sel = select_paragraphs metric question max_doc_len doc"
    and "passage = segmented_passage (extract_paragraph_doc metric question max_doc_len doc)"
  shows "passage
        = segmented_title doc
          @ concat (map (\<lambda>i. splitter # segmented_paragraphs doc ! i) (selected_para_ids sel))
          @ (if last_para_id sel > - 1
             then splitter # py_prefix (segmented_paragraphs doc ! nat (last_para_id sel))
                               (last_para_cut_idx sel)
             else [])
    \<and> sorted_wrt (<) (selected_para_ids sel)
    \<and> set (selected_para_ids sel) \<subseteq> {0..<length (segmented_paragraphs doc)}
    \<and> (last_para_id sel > - 1
         \<longrightarrow> nat (last_para_id sel) < length (segmented_paragraphs doc)
             \<and> nat (last_para_id sel) \<notin> set (selected_para_ids sel))"
proof -
  note p = passage_explicit [OF assms(1), folded assms(2)]
  note i = select_paragraphs_ids [of metric question max_doc_len doc, folded assms(1)]
  have "set (selected_para_ids sel) \<subseteq> {0..<length (segmented_paragraphs doc)}"
    using i by (auto simp: kept_para_ids_def)
  moreover have "nat (last_para_id sel) < length (segmented_paragraphs doc)
      \<and> nat (last_para_id sel) \<notin> set (selected_para_ids sel)" if "last_para_id sel > - 1"
    using i that by (auto simp: kept_para_ids_def)
  ultimately show ?thesis using p i by simp
qed

theorem selected_paragraphs_ascending_witness:
  "select_paragraphs (\<lambda>p q. 0) [] 9 doc_three_paras
       = \<lparr>selected_para_ids = [1, 2], last_para_id = 0, last_para_cut_idx = - 2\<rparr>
   \<and> segmented_passage (extract_paragraph_doc (\<lambda>p q. 0) [] 9 doc_three_paras)
       = [[116], splitter, [101], [102], splitter, [110], splitter, [120], [121]]
   \<and> sorted_wrt (<) [1 :: nat, 2]
   \<and> (0 :: nat) < length (segmented_paragraphs doc_three_paras)
   \<and> (0 :: nat) \<notin> set [1, 2]"
proof -
  have s: "select_paragraphs (\<lambda>p q. 0) [] 9 doc_three_paras
       = \<lparr>selected_para_ids = [1, 2], last_para_id = 0, last_para_cut_idx = - 2\<rparr>"
    by (simp add: doc_three_paras_def select_paragraphs_def calc_paragraph_match_scores_def
        para_infos_def sort_para_infos_def Let_def)
  from selected_paragraphs_ascending [OF refl refl, of "\<lambda>p q. 0" "[]" 9 doc_three_paras] s
  show ?thesis by (simp add: doc_three_paras_def py_prefix_def py_slice_def)
qed

theorem selected_paragraphs_ascending_counterexample:
  "segmented_passage (extract_paragraph_doc (\<lambda>p q. 0) [] 4 doc_two_paras)
       = [splitter] @ segmented_paragraphs doc_two_paras ! 1
         @ [splitter] @ take 1 (segmented_paragraphs doc_two_paras ! 0)
   \<and> kept_para_ids (select_paragraphs (\<lambda>p q. 0) [] 4 doc_two_paras) = [1, 0]
   \<and> \<not> sorted (kept_para_ids (select_paragraphs (\<lambda>p q. 0) [] 4 doc_two_paras))"
  by (simp add: ranker_eval doc_two_paras_def)


section \<open>Samples without an answer\<close>

lemma concat_paragraphs_all:
  "\<forall>doc\<in>set docs. paragraphs doc \<noteq> None \<Longrightarrow>
   concat_paragraphs docs =
     Inr (map (\<lambda>doc. doc\<lparr>content := Some (concat (the (paragraphs doc))), paragraphs := None\<rparr>) docs)"
  by (induction docs) auto

text \<open>
  Claim C10.  For a sample without an \<open>answer\<close> field, whose documents each have a
  \<open>paragraphs\<close> field, \<open>gen_mrc_dataset\<close> returns the sample with every document's
  \<open>paragraphs\<close> deleted and its \<open>content\<close> set to the concatenation of the paragraphs in
  order.  Nothing else changes: the result is the input sample with only \<open>documents\<close>
  updated, so no \<open>answer_labels\<close>, \<open>fake_answers\<close> or \<open>ceil_rougel\<close> is added, and every
  other field of the sample and of each document is as it was.
\<close>

theorem gen_mrc_dataset_without_answer:
  assumes "answer sample = None"
    and "\<forall>doc\<in>set (documents sample). paragraphs doc \<noteq> None"
  shows "gen_mrc_dataset rt sample =
     Inr (sample\<lparr>documents :=
            map (\<lambda>doc. doc\<lparr>content := Some (concat (the (paragraphs doc))), paragraphs := None\<rparr>)
              (documents sample)\<rparr>)"
  using assms by (simp add: gen_mrc_dataset_def concat_paragraphs_all)

theorem gen_mrc_dataset_without_answer_witness:
  "answer sample_plain = None
   \<and> list_all (\<lambda>doc. paragraphs doc \<noteq> None) (documents sample_plain)
   \<and> gen_mrc_dataset rt_ascii sample_plain =
       Inr (sample_plain\<lparr>documents := [\<lparr>paragraphs = None, content = Some [97, 98, 99]\<rparr>]\<rparr>)"
proof -
  have a: "answer sample_plain = None" by (simp add: sample_plain_def)
  have b: "\<forall>doc\<in>set (documents sample_plain). paragraphs doc \<noteq> None"
    by (simp add: sample_plain_def)
  from gen_mrc_dataset_without_answer [OF a b, of rt_ascii] a b show ?thesis
    by (simp add: sample_plain_def)
qed

section \<open>Facts about the span locator\<close>

lemma end_loop_inv:
  "\<forall>e\<in>set es. int start_idx \<le> e \<and> e < int n \<Longrightarrow> search_inv n st \<Longrightarrow>
   search_inv n (end_loop rouge sub_text doc_content start_idx es st)"
proof (induction es arbitrary: st)
  case Nil
  then show ?case by simp
next
  case (Cons e es)
  obtain bs s en le where st: "st = (bs, s, en, le)" by (cases st) auto
  from Cons.prems(1) have rest: "\<forall>e\<in>set es. int start_idx \<le> e \<and> e < int n"
    and e: "int start_idx \<le> e" "e < int n" by auto
  have upd: "search_inv n (sc, int start_idx, e, e)" if "sc > bs" for sc
    using that Cons.prems(2) e by (auto simp: search_inv_def st)
  show ?case
    using Cons.IH [OF rest] Cons.prems(2) upd
    by (simp add: st Let_def)
qed

lemma start_loop_inv:
  "search_inv n st \<Longrightarrow> search_inv n (start_loop rouge sub_text doc_content starts st)"
proof (induction starts arbitrary: st)
  case Nil
  then show ?case by simp
next
  case (Cons start_idx starts)
  obtain bs s en le where st: "st = (bs, s, en, le)" by (cases st) auto
  from Cons.prems have "le < int n" by (simp add: search_inv_def st)
  then have "\<forall>e\<in>set (rev [int start_idx..le]). int start_idx \<le> e \<and> e < int n"
    by auto
  from end_loop_inv [OF this Cons.prems]
  have "search_inv n (end_loop rouge sub_text doc_content start_idx (rev [int start_idx..le]) st)" .
  with Cons.IH Cons.prems show ?case
    by (simp add: st)
qed

lemma fuzzy_search_span: "span_ok (length doc_content) (fuzzy_search rouge sub_text doc_content)"
proof -
  have "search_inv (length doc_content) (0, - 1, - 1, int (length doc_content) - 1)"
    by (simp add: search_inv_def)
  from start_loop_inv [OF this]
  have "search_inv (length doc_content) (start_loop rouge sub_text doc_content
      [0..<length doc_content - length sub_text] (0, - 1, - 1, int (length doc_content) - 1))" .
  then show ?thesis
    by (auto simp: fuzzy_search_def span_ok_def search_inv_def split: prod.splits)
qed

lemma exact_span_ok:
  assumes "str_in sub_text doc_content"
  shows "span_ok (length doc_content) (exact_span sub_text doc_content)"
proof -
  from assms obtain i where i: "str_index sub_text doc_content = Some i"
    by (auto simp: str_in_def)
  from str_index_Some [OF i] have le: "i + length sub_text \<le> length doc_content" by simp
  show ?thesis
  proof (cases "sub_text = []")
    case True
    with i show ?thesis by (simp add: exact_span_def span_ok_def)
  next
    case False
    then have "0 < length sub_text" by simp
    with le i show ?thesis by (auto simp: exact_span_def span_ok_def Let_def)
  qed
qed

lemma find_best_match_index_span:
  "span_ok (length doc_content) (find_best_match_index rouge sub_text doc_content)"
  by (simp add: find_best_match_index_def exact_span_ok fuzzy_search_span)


section \<open>Facts about the supporting paragraphs\<close>

lemma entry_ok_nonempty:
  assumes "entry_ok c (found, st, en)" and "found \<noteq> []"
  shows "0 \<le> st \<and> st \<le> en \<and> en < int (length c) \<and> int (length found) = en - st + 1"
proof -
  from assms(1) have f: "found = py_slice c st (en + 1)"
    and d: "(st = - 1 \<and> en = - 1) \<or> (st = 0 \<and> en = - 1)
           \<or> (0 \<le> st \<and> st \<le> en \<and> en < int (length c))"
    by (simp_all add: entry_ok_def)
  from d show ?thesis
  proof (elim disjE)
    assume "st = - 1 \<and> en = - 1"
    with f have "found = []" by (simp add: py_slice_def Let_def)
    with assms(2) show ?thesis by simp
  next
    assume "st = 0 \<and> en = - 1"
    with f have "found = []" by (simp add: py_slice_def Let_def)
    with assms(2) show ?thesis by simp
  next
    assume a: "0 \<le> st \<and> st \<le> en \<and> en < int (length c)"
    with f have "int (length found) = en - st + 1"
      by (auto simp: py_slice_def Let_def)
    with a show ?thesis by simp
  qed
qed

lemma find_best_match_index_entry:
  assumes "find_best_match_index rouge sub_text c = (st, en, r)"
  shows "entry_ok c (py_slice c st (en + 1), st, en)"
proof -
  from find_best_match_index_span [of c rouge sub_text] assms
  show ?thesis by (auto simp: entry_ok_def span_ok_def)
qed

lemma sup_ok_update:
  assumes "sup_ok docs m" and "py_get docs (int d - 1) = Inr doc" and "content doc = Some c"
    and "entry_ok c p"
  shows "sup_ok docs (m(d \<mapsto> (case m d of Some found \<Rightarrow> found @ [p] | None \<Rightarrow> [p])))"
proof -
  have "list_all (entry_ok c) (case m d of Some found \<Rightarrow> found @ [p] | None \<Rightarrow> [p])"
  proof (cases "m d")
    case None
    with assms(4) show ?thesis by simp
  next
    case (Some found)
    with assms(1) obtain doc' c' where "py_get docs (int d - 1) = Inr doc'"
      "content doc' = Some c'" "list_all (entry_ok c') found"
      unfolding sup_ok_def by blast
    with assms(2,3,4) Some show ?thesis by simp
  qed
  with assms(1,2,3) show ?thesis
    unfolding sup_ok_def by auto
qed

lemma sup_ok_empty: "sup_ok docs Map.empty"
  by (simp add: sup_ok_def)

lemma para_strs_loop_ok:
  "sup_ok docs m \<Longrightarrow> para_strs_loop rouge docs d pieces m = Inr m' \<Longrightarrow> sup_ok docs m'"
proof (induction pieces arbitrary: m)
  case Nil
  then show ?case by simp
next
  case (Cons para_str rest)
  show ?case
  proof (cases "para_str \<noteq> [] \<and> \<not> str_in at_content para_str")
    case False
    with Cons.prems(2) have "para_strs_loop rouge docs d rest m = Inr m'"
      by auto
    from Cons.IH [OF Cons.prems(1) this] show ?thesis .
  next
    case True
    from True Cons.prems(2) obtain doc where doc: "py_get docs (int d - 1) = Inr doc"
      by (cases "py_get docs (int d - 1)") auto
    from True Cons.prems(2) doc obtain c where c: "content doc = Some c"
      by (cases "content doc") auto
    obtain st en r where f: "find_best_match_index rouge (str_remove (marker_tail d) para_str) c
        = (st, en, r)"
      by (cases "find_best_match_index rouge (str_remove (marker_tail d) para_str) c") auto
    let ?m = "m(d \<mapsto> (case m d of Some found \<Rightarrow> found @ [(py_slice c st (en + 1), st, en)]
        | None \<Rightarrow> [(py_slice c st (en + 1), st, en)]))"
    from True Cons.prems(2) doc c f have run: "para_strs_loop rouge docs d rest ?m = Inr m'"
      by (simp add: Let_def)
    from sup_ok_update [OF Cons.prems(1) doc c find_best_match_index_entry [OF f]]
    have "sup_ok docs ?m" .
    from Cons.IH [OF this run] show ?thesis .
  qed
qed

lemma support_docids_loop_ok:
  "sup_ok docs m \<Longrightarrow> support_docids_loop rouge docs sup_text ids m = Inr m' \<Longrightarrow> sup_ok docs m'"
proof (induction ids arbitrary: m)
  case Nil
  then show ?case by simp
next
  case (Cons d ids)
  from Cons.prems(2) obtain m1 where
    m1: "para_strs_loop rouge docs d (str_split sup_text (marker d)) m = Inr m1"
    and rest: "support_docids_loop rouge docs sup_text ids m1 = Inr m'"
    by (auto split: sum.splits)
  from Cons.IH [OF para_strs_loop_ok [OF Cons.prems(1) m1] rest] show ?case .
qed


section \<open>Facts about locating an answer text\<close>

lemma best_sup_para_spec:
  assumes "best_sup_para rouge a xs (m0, s0, e0, b0) = (mx, bs, be, bi)"
  shows "((mx, bs, be, bi) = (m0, s0, e0, b0) \<and> (\<forall>x\<in>set xs. conf rouge a (snd x) \<le> m0))
       \<or> (\<exists>k<length xs. find_best_match_index rouge a (fst (snd (xs ! k))) = (bs, be, mx)
             \<and> bi = Some (fst (xs ! k)) \<and> m0 < mx
             \<and> (\<forall>j<k. conf rouge a (snd (xs ! j)) < mx)
             \<and> (\<forall>x\<in>set xs. conf rouge a (snd x) \<le> mx))"
  using assms
proof (induction xs arbitrary: m0 s0 e0 b0)
  case Nil
  then show ?case by simp
next
  case (Cons x xs)
  obtain i p where x: "x = (i, p)" by (cases x) auto
  obtain s e r where f: "find_best_match_index rouge a (fst p) = (s, e, r)"
    by (cases "find_best_match_index rouge a (fst p)") auto
  then have cx: "conf rouge a (snd x) = r" by (simp add: conf_def x)
  show ?case
  proof (cases "r > m0")
    case True
    with Cons.prems f have run: "best_sup_para rouge a xs (r, s, e, Some i) = (mx, bs, be, bi)"
      by (simp add: x)
    from Cons.IH [OF run] show ?thesis
    proof (elim disjE conjE exE)
      assume same: "(mx, bs, be, bi) = (r, s, e, Some i)"
        and le: "\<forall>x\<in>set xs. conf rouge a (snd x) \<le> r"
      have "0 < length (x # xs) \<and> find_best_match_index rouge a (fst (snd ((x # xs) ! 0)))
             = (bs, be, mx)
          \<and> bi = Some (fst ((x # xs) ! 0)) \<and> m0 < mx
          \<and> (\<forall>j<0. conf rouge a (snd ((x # xs) ! j)) < mx)
          \<and> (\<forall>y\<in>set (x # xs). conf rouge a (snd y) \<le> mx)"
        using same le f True cx by (auto simp: x)
      then show ?thesis by blast
    next
      fix k assume k: "k < length xs"
        "find_best_match_index rouge a (fst (snd (xs ! k))) = (bs, be, mx)"
        "bi = Some (fst (xs ! k))" "r < mx"
        "\<forall>j<k. conf rouge a (snd (xs ! j)) < mx"
        "\<forall>x\<in>set xs. conf rouge a (snd x) \<le> mx"
      have lt: "conf rouge a (snd ((x # xs) ! j)) < mx" if "j < Suc k" for j
        using that k(4,5) cx by (cases j) auto
      have "Suc k < length (x # xs)
          \<and> find_best_match_index rouge a (fst (snd ((x # xs) ! Suc k))) = (bs, be, mx)
          \<and> bi = Some (fst ((x # xs) ! Suc k)) \<and> m0 < mx
          \<and> (\<forall>j<Suc k. conf rouge a (snd ((x # xs) ! j)) < mx)
          \<and> (\<forall>y\<in>set (x # xs). conf rouge a (snd y) \<le> mx)"
        using k True cx lt by auto
      then show ?thesis by blast
    qed
  next
    case False
    with Cons.prems f have run: "best_sup_para rouge a xs (m0, s0, e0, b0) = (mx, bs, be, bi)"
      by (simp add: x)
    from Cons.IH [OF run] show ?thesis
    proof (elim disjE conjE exE)
      assume same: "(mx, bs, be, bi) = (m0, s0, e0, b0)"
        and le: "\<forall>x\<in>set xs. conf rouge a (snd x) \<le> m0"
      with False cx show ?thesis by auto
    next
      fix k assume k: "k < length xs"
        "find_best_match_index rouge a (fst (snd (xs ! k))) = (bs, be, mx)"
        "bi = Some (fst (xs ! k))" "m0 < mx"
        "\<forall>j<k. conf rouge a (snd (xs ! j)) < mx"
        "\<forall>x\<in>set xs. conf rouge a (snd x) \<le> mx"
      have lt: "conf rouge a (snd ((x # xs) ! j)) < mx" if "j < Suc k" for j
        using that k(4,5) cx False by (cases j) auto
      have "Suc k < length (x # xs)
          \<and> find_best_match_index rouge a (fst (snd ((x # xs) ! Suc k))) = (bs, be, mx)
          \<and> bi = Some (fst ((x # xs) ! Suc k)) \<and> m0 < mx
          \<and> (\<forall>j<Suc k. conf rouge a (snd ((x # xs) ! j)) < mx)
          \<and> (\<forall>y\<in>set (x # xs). conf rouge a (snd y) \<le> mx)"
        using k False cx lt by auto
      then show ?thesis by blast
    qed
  qed
qed

lemma best_sup_para_enumerate:
  assumes "best_sup_para rouge a (enumerate 0 ps) (0, - 1, - 1, None) = (mx, bs, be, bi)"
  shows "((mx, bs, be, bi) = (0, - 1, - 1, None) \<and> (\<forall>j<length ps. conf rouge a (ps ! j) \<le> 0))
       \<or> (\<exists>k<length ps. find_best_match_index rouge a (fst (ps ! k)) = (bs, be, mx)
             \<and> bi = Some k \<and> 0 < mx
             \<and> (\<forall>j<k. conf rouge a (ps ! j) < mx)
             \<and> (\<forall>j<length ps. conf rouge a (ps ! j) \<le> mx))"
proof -
  have img: "snd ` set (enumerate 0 ps) = set ps"
    by (metis map_snd_enumerate set_map)
  have "(\<forall>x\<in>set (enumerate 0 ps). conf rouge a (snd x) \<le> m)
      \<longleftrightarrow> (\<forall>p\<in>set ps. conf rouge a p \<le> m)" for m
    unfolding img [symmetric] by blast
  then have all: "(\<forall>x\<in>set (enumerate 0 ps). conf rouge a (snd x) \<le> m)
      \<longleftrightarrow> (\<forall>j<length ps. conf rouge a (ps ! j) \<le> m)" for m
    by (simp add: all_set_conv_all_nth)
  from best_sup_para_spec [OF assms] show ?thesis
  proof (elim disjE conjE exE)
    assume "(mx, bs, be, bi) = (0, - 1, - 1, None)"
      "\<forall>x\<in>set (enumerate 0 ps). conf rouge a (snd x) \<le> 0"
    with all show ?thesis by blast
  next
    fix k assume k: "k < length (enumerate 0 ps)"
      "find_best_match_index rouge a (fst (snd (enumerate 0 ps ! k))) = (bs, be, mx)"
      "bi = Some (fst (enumerate 0 ps ! k))" "0 < mx"
      "\<forall>j<k. conf rouge a (snd (enumerate 0 ps ! j)) < mx"
      "\<forall>x\<in>set (enumerate 0 ps). conf rouge a (snd x) \<le> mx"
    from k(1) have kl: "k < length ps" by simp
    then have nth: "enumerate 0 ps ! j = (j, ps ! j)" if "j \<le> k" for j
      using that by (simp add: nth_enumerate_eq)
    have "k < length ps \<and> find_best_match_index rouge a (fst (ps ! k)) = (bs, be, mx)
        \<and> bi = Some k \<and> 0 < mx
        \<and> (\<forall>j<k. conf rouge a (ps ! j) < mx)
        \<and> (\<forall>j<length ps. conf rouge a (ps ! j) \<le> mx)"
      using k kl nth all by auto
    then show ?thesis by blast
  qed
qed

lemma locate_answer_cases:
  assumes "best_sup_para rouge a (enumerate 0 ps) (0, - 1, - 1, None) = (mx, bs, be, bi)"
  shows "(\<forall>j<length ps. conf rouge a (ps ! j) \<le> mx)
       \<and> (mx = 0 \<longrightarrow> locate_answer rouge d ps a = Inr None)
       \<and> (mx \<noteq> 0 \<longrightarrow>
            (\<exists>i<length ps. bi = Some i
               \<and> find_best_match_index rouge a (fst (ps ! i)) = (bs, be, mx)
               \<and> (\<forall>j<i. conf rouge a (ps ! j) < mx)
               \<and> locate_answer rouge d ps a =
                   (if be = - 1 then Inr None
                    else Inr (Some (int d - 1, bs + fst (snd (ps ! i)),
                                    bs + fst (snd (ps ! i)) + (be - bs))))))"
  using best_sup_para_enumerate [OF assms]
proof (elim disjE conjE exE)
  assume "(mx, bs, be, bi) = (0, - 1, - 1, None)"
    and "\<forall>j<length ps. conf rouge a (ps ! j) \<le> 0"
  with assms show ?thesis by (simp add: locate_answer_def)
next
  fix k assume k: "k < length ps" "find_best_match_index rouge a (fst (ps ! k)) = (bs, be, mx)"
    "bi = Some k" "0 < mx" "\<forall>j<k. conf rouge a (ps ! j) < mx"
    "\<forall>j<length ps. conf rouge a (ps ! j) \<le> mx"
  from find_best_match_index_span [of "fst (ps ! k)" rouge a] k(2,4)
  have span: "(bs = 0 \<and> be = - 1) \<or> (0 \<le> bs \<and> bs \<le> be)"
    by (auto simp: span_ok_def)
  have get: "py_get ps (int k) = Inr (ps ! k)"
    using k(1) by (simp add: py_get_def)
  have "locate_answer rouge d ps a =
      (if be = - 1 then Inr None
       else Inr (Some (int d - 1, bs + fst (snd (ps ! k)), bs + fst (snd (ps ! k)) + (be - bs))))"
    using span assms k(3) get by (auto simp: locate_answer_def Let_def)
  with k show ?thesis by auto
qed

lemma locate_answer_total: "\<exists>r. locate_answer rouge d ps a = Inr r"
proof -
  obtain mx bs be bi
    where b: "best_sup_para rouge a (enumerate 0 ps) (0, - 1, - 1, None) = (mx, bs, be, bi)"
    by (cases "best_sup_para rouge a (enumerate 0 ps) (0, - 1, - 1, None)") auto
  from locate_answer_cases [OF b, of d] show ?thesis
    by (cases "mx = 0") auto
qed

lemma locate_answer_label:
  assumes "locate_answer rouge d ps a = Inr (Some l)" and "list_all (entry_ok c) ps"
  shows "\<exists>st en. l = (int d - 1, st, en) \<and> 0 \<le> st \<and> st \<le> en \<and> en < int (length c)"
proof -
  obtain mx bs be bi
    where b: "best_sup_para rouge a (enumerate 0 ps) (0, - 1, - 1, None) = (mx, bs, be, bi)"
    by (cases "best_sup_para rouge a (enumerate 0 ps) (0, - 1, - 1, None)") auto
  from locate_answer_cases [OF b, of d] assms(1) have "mx \<noteq> 0" by auto
  with locate_answer_cases [OF b, of d] assms(1) obtain i where i: "i < length ps"
    "find_best_match_index rouge a (fst (ps ! i)) = (bs, be, mx)" "be \<noteq> - 1"
    "l = (int d - 1, bs + fst (snd (ps ! i)), bs + fst (snd (ps ! i)) + (be - bs))"
    by (auto split: if_splits)
  obtain found st en where p: "ps ! i = (found, st, en)" by (cases "ps ! i") auto
  from find_best_match_index_span [of found rouge a] i(2,3) p
  have span: "0 \<le> bs" "bs \<le> be" "be < int (length found)"
    by (auto simp: span_ok_def)
  then have "found \<noteq> []" by auto
  moreover from assms(2) i(1) p have "entry_ok c (found, st, en)"
    by (metis list_all_length)
  ultimately have "0 \<le> st \<and> st \<le> en \<and> en < int (length c) \<and> int (length found) = en - st + 1"
    by (rule entry_ok_nonempty [rotated])
  with span i(4) p show ?thesis by auto
qed

lemma locate_answer_empty_paras:
  assumes "\<forall>p\<in>set ps. fst p = []"
  shows "locate_answer rouge d ps a = Inr None"
proof -
  obtain mx bs be bi
    where b: "best_sup_para rouge a (enumerate 0 ps) (0, - 1, - 1, None) = (mx, bs, be, bi)"
    by (cases "best_sup_para rouge a (enumerate 0 ps) (0, - 1, - 1, None)") auto
  show ?thesis
  proof (cases "mx = 0")
    case True
    with locate_answer_cases [OF b, of d] show ?thesis by simp
  next
    case False
    with locate_answer_cases [OF b, of d] obtain i where i: "i < length ps"
      "find_best_match_index rouge a (fst (ps ! i)) = (bs, be, mx)"
      "locate_answer rouge d ps a =
         (if be = - 1 then Inr None
          else Inr (Some (int d - 1, bs + fst (snd (ps ! i)),
                          bs + fst (snd (ps ! i)) + (be - bs))))"
      by auto
    from assms i(1) have "fst (ps ! i) = []" by simp
    with find_best_match_index_span [of "fst (ps ! i)" rouge a] i(2) have "be = - 1"
      by (auto simp: span_ok_def)
    with i(3) show ?thesis by simp
  qed
qed


section \<open>Facts about the loops over the answer\<close>

lemma answer_strs_loop_acc:
  "answer_strs_loop rouge d ps pieces (ts0, ls0)
     = Inr (ts0 @ fst (strs_result rouge d ps pieces), ls0 @ snd (strs_result rouge d ps pieces))"
proof (induction pieces arbitrary: ts0 ls0)
  case Nil
  then show ?case by (simp add: strs_result_def)
next
  case (Cons piece rest)
  define a where "a = str_strip piece"
  define a' where "a' = str_remove (marker_tail d) a"
  show ?case
  proof (cases "a \<noteq> [] \<and> \<not> str_in at_content a")
    case False
    then have step: "answer_strs_loop rouge d ps (piece # rest) (ts, ls)
        = answer_strs_loop rouge d ps rest (ts, ls)" for ts ls
      by (auto simp: a_def Let_def)
    have "strs_result rouge d ps (piece # rest) = strs_result rouge d ps rest"
      unfolding strs_result_def step ..
    then show ?thesis
      unfolding step using Cons.IH [of ts0 ls0] by simp
  next
    case True
    from locate_answer_total [of rouge d ps a'] obtain r
      where r: "locate_answer rouge d ps a' = Inr r" by blast
    define lr where "lr = (case r of None \<Rightarrow> [] | Some l \<Rightarrow> [l])"
    have step: "answer_strs_loop rouge d ps (piece # rest) (ts, ls)
        = answer_strs_loop rouge d ps rest (ts @ [a'], ls @ lr)" for ts ls
      using True r by (cases r) (auto simp: a_def a'_def lr_def Let_def)
    have "answer_strs_loop rouge d ps (piece # rest) ([], [])
        = Inr (a' # fst (strs_result rouge d ps rest), lr @ snd (strs_result rouge d ps rest))"
      unfolding step using Cons.IH [of "[] @ [a']" "[] @ lr"] by simp
    then have "strs_result rouge d ps (piece # rest)
        = (a' # fst (strs_result rouge d ps rest), lr @ snd (strs_result rouge d ps rest))"
      unfolding strs_result_def [of rouge d ps "piece # rest"] by simp
    then show ?thesis
      unfolding step using Cons.IH [of "ts0 @ [a']" "ls0 @ lr"] by simp
  qed
qed

lemma strs_result_from_locate:
  "\<forall>l\<in>set (snd (strs_result rouge d ps pieces)).
     \<exists>a. locate_answer rouge d ps a = Inr (Some l)"
proof (induction pieces)
  case Nil
  then show ?case by (simp add: strs_result_def)
next
  case (Cons piece rest)
  define a where "a = str_strip piece"
  define a' where "a' = str_remove (marker_tail d) a"
  show ?case
  proof (cases "a \<noteq> [] \<and> \<not> str_in at_content a")
    case False
    then have step: "answer_strs_loop rouge d ps (piece # rest) ([], [])
        = answer_strs_loop rouge d ps rest ([], [])"
      by (auto simp: a_def Let_def)
    have "strs_result rouge d ps (piece # rest) = strs_result rouge d ps rest"
      unfolding strs_result_def step ..
    with Cons.IH show ?thesis by simp
  next
    case True
    from locate_answer_total [of rouge d ps a'] obtain r
      where r: "locate_answer rouge d ps a' = Inr r" by blast
    define lr where "lr = (case r of None \<Rightarrow> [] | Some l \<Rightarrow> [l])"
    have step: "answer_strs_loop rouge d ps (piece # rest) ([], [])
        = answer_strs_loop rouge d ps rest ([] @ [a'], [] @ lr)"
      using True r by (cases r) (auto simp: a_def a'_def lr_def Let_def)
    have "answer_strs_loop rouge d ps (piece # rest) ([], [])
        = Inr (a' # fst (strs_result rouge d ps rest), lr @ snd (strs_result rouge d ps rest))"
      unfolding step by (simp add: answer_strs_loop_acc)
    then have res: "snd (strs_result rouge d ps (piece # rest))
        = lr @ snd (strs_result rouge d ps rest)"
      unfolding strs_result_def [of rouge d ps "piece # rest"] by simp
    have "\<exists>a. locate_answer rouge d ps a = Inr (Some l)" if "l \<in> set lr" for l
    proof -
      from that have "r = Some l" by (cases r) (auto simp: lr_def)
      with r show ?thesis by blast
    qed
    with Cons.IH show ?thesis unfolding res by auto
  qed
qed

lemma strs_result_labels:
  assumes "list_all (entry_ok c) ps"
  shows "\<forall>l\<in>set (snd (strs_result rouge d ps pieces)).
           \<exists>st en. l = (int d - 1, st, en) \<and> 0 \<le> st \<and> st \<le> en \<and> en < int (length c)"
  using strs_result_from_locate [of rouge d ps pieces] locate_answer_label [OF _ assms]
  by blast

lemma strs_result_empty_paras:
  assumes "\<forall>p\<in>set ps. fst p = []"
  shows "snd (strs_result rouge d ps pieces) = []"
proof (rule ccontr)
  assume "snd (strs_result rouge d ps pieces) \<noteq> []"
  then obtain l where "l \<in> set (snd (strs_result rouge d ps pieces))"
    by (cases "snd (strs_result rouge d ps pieces)") auto
  with strs_result_from_locate [of rouge d ps pieces] obtain a
    where "locate_answer rouge d ps a = Inr (Some l)" by blast
  with locate_answer_empty_paras [OF assms, of rouge d a] show False by simp
qed

lemma doc_answers_labels_ok:
  assumes "sup_ok docs sp"
  shows "list_all (label_ok docs) (snd (doc_answers rouge ans sp d))"
proof (cases "sp d")
  case None
  then show ?thesis by (simp add: doc_answers_def)
next
  case (Some ps)
  with assms obtain doc c where dc: "py_get docs (int d - 1) = Inr doc" "content doc = Some c"
    "list_all (entry_ok c) ps"
    unfolding sup_ok_def by blast
  from strs_result_labels [OF dc(3), of rouge d "str_split ans (marker d)"] dc(1,2)
  have "\<forall>l\<in>set (snd (strs_result rouge d ps (str_split ans (marker d)))). label_ok docs l"
    by (fastforce simp: label_ok_def)
  then show ?thesis
    by (simp add: doc_answers_def Some list_all_iff)
qed



lemma py_get_Inr_range:
  "py_get xs i = Inr x \<Longrightarrow> - int (length xs) \<le> i \<and> i < int (length xs)"
  by (auto simp: py_get_def split: if_splits)

lemma slice_answers_ok:
  "list_all (label_ok docs) ls \<Longrightarrow> \<exists>fs. slice_answers docs ls = Inr fs \<and> length fs = length ls"
proof (induction ls)
  case Nil
  then show ?case by simp
next
  case (Cons l ls)
  obtain d st en where l: "l = (d, st, en)" by (cases l) auto
  from Cons.prems obtain doc c where "py_get docs d = Inr doc" "content doc = Some c"
    by (auto simp: label_ok_def l)
  moreover from Cons obtain fs where "slice_answers docs ls = Inr fs" "length fs = length ls"
    by auto
  ultimately show ?case by (simp add: l)
qed

lemma calc_ceil_rougel_ok:
  assumes "list_all (label_ok (documents s)) ls"
  shows "\<exists>fs. slice_answers (documents s) ls = Inr fs
     \<and> calc_ceil_rougel rouge t (s\<lparr>answer_labels := Some ls\<rparr>)
         = Inr (s\<lparr>answer_labels := Some ls, fake_answers := Some fs,
                  ceil_rougel := Some (if length fs = 0 then 0 else rouge (concat fs) t)\<rparr>)"
proof -
  from slice_answers_ok [OF assms] obtain fs where "slice_answers (documents s) ls = Inr fs"
    by blast
  then show ?thesis by (simp add: calc_ceil_rougel_def)
qed

lemma answer_docids_step:
  assumes "sup_ok (documents s) sp" and "list_all (label_ok (documents s)) ls0"
    and "sp d = Some ps"
  shows "\<exists>fs. slice_answers (documents s) (ls0 @ snd (doc_answers rouge ans sp d)) = Inr fs
     \<and> list_all (label_ok (documents s)) (ls0 @ snd (doc_answers rouge ans sp d))
     \<and> answer_docids_loop rouge ans sp (d # ids) (ts0, ls0) s
         = answer_docids_loop rouge ans sp ids
             (ts0 @ fst (doc_answers rouge ans sp d), ls0 @ snd (doc_answers rouge ans sp d))
             (s\<lparr>answer_labels := Some (ls0 @ snd (doc_answers rouge ans sp d)),
                 fake_answers := Some fs,
                 ceil_rougel := Some (if length fs = 0 then 0
                    else rouge (concat fs) (concat (ts0 @ fst (doc_answers rouge ans sp d))))\<rparr>)"
proof -
  let ?da = "doc_answers rouge ans sp d"
  have da: "?da = strs_result rouge d ps (str_split ans (marker d))"
    by (simp add: doc_answers_def assms(3))
  have ok: "list_all (label_ok (documents s)) (ls0 @ snd ?da)"
    using assms(2) doc_answers_labels_ok [OF assms(1), of rouge ans d] by simp
  from calc_ceil_rougel_ok [OF ok, of rouge "concat (ts0 @ fst ?da)"] obtain fs where
    fs: "slice_answers (documents s) (ls0 @ snd ?da) = Inr fs"
    "calc_ceil_rougel rouge (concat (ts0 @ fst ?da)) (s\<lparr>answer_labels := Some (ls0 @ snd ?da)\<rparr>)
       = Inr (s\<lparr>answer_labels := Some (ls0 @ snd ?da), fake_answers := Some fs,
                ceil_rougel := Some (if length fs = 0 then 0
                   else rouge (concat fs) (concat (ts0 @ fst ?da)))\<rparr>)"
    by blast
  have "answer_docids_loop rouge ans sp (d # ids) (ts0, ls0) s
      = answer_docids_loop rouge ans sp ids (ts0 @ fst ?da, ls0 @ snd ?da)
          (s\<lparr>answer_labels := Some (ls0 @ snd ?da), fake_answers := Some fs,
              ceil_rougel := Some (if length fs = 0 then 0
                 else rouge (concat fs) (concat (ts0 @ fst ?da)))\<rparr>)"
    using fs(2) by (simp add: assms(3) answer_strs_loop_acc da [symmetric])
  with fs(1) ok show ?thesis by blast
qed

lemma answer_docids_loop_missing:
  assumes "sup_ok (documents s) sp" and "list_all (label_ok (documents s)) ls0"
    and "\<exists>d\<in>set ids. sp d = None"
  shows "answer_docids_loop rouge ans sp ids (ts0, ls0) s = Inl KeyError"
  using assms
proof (induction ids arbitrary: ts0 ls0 s)
  case Nil
  then show ?case by simp
next
  case (Cons d ids)
  show ?case
  proof (cases "sp d")
    case None
    then show ?thesis by simp
  next
    case (Some ps)
    with Cons.prems(3) have rest: "\<exists>d\<in>set ids. sp d = None" by auto
    from answer_docids_step [OF Cons.prems(1,2) Some, of rouge ans ids ts0] obtain fs where
      ok: "list_all (label_ok (documents s)) (ls0 @ snd (doc_answers rouge ans sp d))"
      and step: "answer_docids_loop rouge ans sp (d # ids) (ts0, ls0) s
         = answer_docids_loop rouge ans sp ids
             (ts0 @ fst (doc_answers rouge ans sp d), ls0 @ snd (doc_answers rouge ans sp d))
             (s\<lparr>answer_labels := Some (ls0 @ snd (doc_answers rouge ans sp d)),
                 fake_answers := Some fs,
                 ceil_rougel := Some (if length fs = 0 then 0
                    else rouge (concat fs) (concat (ts0 @ fst (doc_answers rouge ans sp d))))\<rparr>)"
      by blast
    show ?thesis
      unfolding step using Cons.prems(1) ok rest by (intro Cons.IH) simp_all
  qed
qed

lemma answer_docids_loop_result:
  assumes "sup_ok (documents s) sp" and "list_all (label_ok (documents s)) ls0"
    and "\<forall>d\<in>set ids. sp d \<noteq> None" and "ids \<noteq> []"
  shows "\<exists>fs. slice_answers (documents s)
                (ls0 @ concat (map (\<lambda>d. snd (doc_answers rouge ans sp d)) ids)) = Inr fs
     \<and> list_all (label_ok (documents s))
         (ls0 @ concat (map (\<lambda>d. snd (doc_answers rouge ans sp d)) ids))
     \<and> answer_docids_loop rouge ans sp ids (ts0, ls0) s
         = Inr (s\<lparr>answer_labels :=
                    Some (ls0 @ concat (map (\<lambda>d. snd (doc_answers rouge ans sp d)) ids)),
                  fake_answers := Some fs,
                  ceil_rougel := Some (if length fs = 0 then 0
                    else rouge (concat fs)
                      (concat (ts0 @ concat (map (\<lambda>d. fst (doc_answers rouge ans sp d)) ids))))\<rparr>)"
  using assms
proof (induction ids arbitrary: ts0 ls0 s)
  case Nil
  then show ?case by simp
next
  case (Cons d ids)
  from Cons.prems(3) obtain ps where ps: "sp d = Some ps" by auto
  let ?t = "fst (doc_answers rouge ans sp d)" and ?l = "snd (doc_answers rouge ans sp d)"
  from answer_docids_step [OF Cons.prems(1,2) ps, of rouge ans ids ts0] obtain fs where
    fs: "slice_answers (documents s) (ls0 @ ?l) = Inr fs"
    and ok: "list_all (label_ok (documents s)) (ls0 @ ?l)"
    and step: "answer_docids_loop rouge ans sp (d # ids) (ts0, ls0) s
         = answer_docids_loop rouge ans sp ids (ts0 @ ?t, ls0 @ ?l)
             (s\<lparr>answer_labels := Some (ls0 @ ?l), fake_answers := Some fs,
                 ceil_rougel := Some (if length fs = 0 then 0
                    else rouge (concat fs) (concat (ts0 @ ?t)))\<rparr>)"
    by blast
  show ?case
  proof (cases "ids = []")
    case True
    with fs ok step show ?thesis by simp
  next
    case False
    let ?s1 = "s\<lparr>answer_labels := Some (ls0 @ ?l), fake_answers := Some fs,
        ceil_rougel := Some (if length fs = 0 then 0 else rouge (concat fs) (concat (ts0 @ ?t)))\<rparr>"
    have "sup_ok (documents ?s1) sp" "list_all (label_ok (documents ?s1)) (ls0 @ ?l)"
      "\<forall>d\<in>set ids. sp d \<noteq> None"
      using Cons.prems(1,3) ok by simp_all
    from Cons.IH [OF this False, of "ts0 @ ?t"] obtain fsa where
      A: "slice_answers (documents ?s1)
            ((ls0 @ ?l) @ concat (map (\<lambda>d. snd (doc_answers rouge ans sp d)) ids)) = Inr fsa"
      and B: "list_all (label_ok (documents ?s1))
            ((ls0 @ ?l) @ concat (map (\<lambda>d. snd (doc_answers rouge ans sp d)) ids))"
      and C: "answer_docids_loop rouge ans sp ids (ts0 @ ?t, ls0 @ ?l) ?s1
         = Inr (?s1\<lparr>answer_labels :=
                    Some ((ls0 @ ?l) @ concat (map (\<lambda>d. snd (doc_answers rouge ans sp d)) ids)),
                  fake_answers := Some fsa,
                  ceil_rougel := Some (if length fsa = 0 then 0
                    else rouge (concat fsa)
                      (concat ((ts0 @ ?t)
                         @ concat (map (\<lambda>d. fst (doc_answers rouge ans sp d)) ids))))\<rparr>)"
      by blast
    show ?thesis
      unfolding step C using A B by simp
  qed
qed


section \<open>Facts about \<open>gen_mrc_dataset\<close>\<close>

lemma gen_mrc_dataset_answer:
  assumes "concat_paragraphs (documents sample) = Inr docs" and "answer sample = Some ans"
    and "supporting_paragraph sample = Some sup_text"
    and "support_docids_loop (rouge_l rt) docs sup_text (find_answer_in_docid rt sup_text)
           Map.empty = Inr sp"
  shows "gen_mrc_dataset rt sample
           = answer_docids_loop (rouge_l rt) ans sp (find_answer_in_docid rt ans) ([], [])
               (sample\<lparr>documents := docs\<rparr>)"
    and "sup_ok docs sp"
    and "doc_labels rt sample d = snd (doc_answers (rouge_l rt) ans sp d)"
proof -
  show "gen_mrc_dataset rt sample
           = answer_docids_loop (rouge_l rt) ans sp (find_answer_in_docid rt ans) ([], [])
               (sample\<lparr>documents := docs\<rparr>)"
    using assms by (simp add: gen_mrc_dataset_def)
  show "sup_ok docs sp"
    using support_docids_loop_ok [OF sup_ok_empty assms(4)] .
  show "doc_labels rt sample d = snd (doc_answers (rouge_l rt) ans sp d)"
    using assms by (simp add: doc_labels_def)
qed

lemma gen_mrc_dataset_Inr:
  assumes "gen_mrc_dataset rt sample = Inr s'" and "answer sample = Some ans"
  shows "\<exists>docs sup_text sp. concat_paragraphs (documents sample) = Inr docs
     \<and> supporting_paragraph sample = Some sup_text
     \<and> support_docids_loop (rouge_l rt) docs sup_text (find_answer_in_docid rt sup_text)
           Map.empty = Inr sp"
  using assms by (auto simp: gen_mrc_dataset_def split: sum.splits option.splits)

lemma gen_mrc_dataset_labelled:
  assumes "gen_mrc_dataset rt sample = Inr s'" and "answer sample = Some ans"
    and "find_answer_in_docid rt ans \<noteq> []"
  shows "\<exists>docs fs. concat_paragraphs (documents sample) = Inr docs
     \<and> documents s' = docs
     \<and> answer_labels s'
          = Some (concat (map (doc_labels rt sample) (find_answer_in_docid rt ans)))
     \<and> list_all (label_ok docs) (concat (map (doc_labels rt sample) (find_answer_in_docid rt ans)))
     \<and> slice_answers docs (concat (map (doc_labels rt sample) (find_answer_in_docid rt ans)))
          = Inr fs
     \<and> fake_answers s' = Some fs
     \<and> (fs = [] \<longrightarrow> ceil_rougel s' = Some 0)"
proof -
  from gen_mrc_dataset_Inr [OF assms(1,2)] obtain docs sup_text sp where
    f: "concat_paragraphs (documents sample) = Inr docs"
    "supporting_paragraph sample = Some sup_text"
    "support_docids_loop (rouge_l rt) docs sup_text (find_answer_in_docid rt sup_text)
           Map.empty = Inr sp"
    by blast
  let ?ids = "find_answer_in_docid rt ans"
  let ?s = "sample\<lparr>documents := docs\<rparr>"
  note g = gen_mrc_dataset_answer [OF f(1) assms(2) f(2,3)]
  have ok: "sup_ok (documents ?s) sp" "list_all (label_ok (documents ?s)) []"
    using g(2) by simp_all
  have run: "answer_docids_loop (rouge_l rt) ans sp ?ids ([], []) ?s = Inr s'"
    using g(1) assms(1) by simp
  have present: "\<forall>d\<in>set ?ids. sp d \<noteq> None"
  proof (rule ccontr)
    assume "\<not> (\<forall>d\<in>set ?ids. sp d \<noteq> None)"
    then have "\<exists>d\<in>set ?ids. sp d = None" by simp
    from answer_docids_loop_missing [OF ok this, of "rouge_l rt" ans "[]"] run
    show False by simp
  qed
  have labels: "map (doc_labels rt sample) ?ids
      = map (\<lambda>d. snd (doc_answers (rouge_l rt) ans sp d)) ?ids"
    using g(3) by simp
  from answer_docids_loop_result [OF ok present assms(3), of "rouge_l rt" ans "[]"] run
  obtain fs where
    r: "slice_answers docs (concat (map (\<lambda>d. snd (doc_answers (rouge_l rt) ans sp d)) ?ids))
         = Inr fs"
    "list_all (label_ok docs) (concat (map (\<lambda>d. snd (doc_answers (rouge_l rt) ans sp d)) ?ids))"
    "s' = ?s\<lparr>answer_labels :=
                Some (concat (map (\<lambda>d. snd (doc_answers (rouge_l rt) ans sp d)) ?ids)),
              fake_answers := Some fs,
              ceil_rougel := Some (if length fs = 0 then 0
                else rouge_l rt (concat fs)
                  (concat (concat (map (\<lambda>d. fst (doc_answers (rouge_l rt) ans sp d)) ?ids))))\<rparr>"
    by auto
  from r f(1) show ?thesis unfolding labels by simp
qed



section \<open>Runs on the example samples\<close>

lemma str_of_nat_digit [simp]: "n < 10 \<Longrightarrow> str_of_nat n = [48 + n]"
  by (simp add: str_of_nat.simps)

lemmas resolver_eval =
  gen_mrc_dataset_def rt_ascii_def find_answer_in_docid_def marker_def marker_tail_def
  at_content_def marker_at_def str_split_def str_in_def str_strip_def py_isspace_def
  find_best_match_index_def exact_span_def fuzzy_search_def endswith_char_def remove_char_def
  full_stop_def space_def locate_answer_def calc_ceil_rougel_def py_get_def py_slice_def
  rouge_l_score_def Let_def enumerate_eq_zip power2_eq_square


lemma sample_two_docs_run: "gen_mrc_dataset rt_ascii sample_two_docs = Inr sample_two_docs_out"
  by (simp add: sample_two_docs_def sample_two_docs_out_def resolver_eval)

lemma sample_full_stop_run:
  "gen_mrc_dataset rt_ascii sample_full_stop
     = Inr (sample_full_stop\<lparr>documents := [\<lparr>paragraphs = None, content = Some [97, 98, 99, 100]\<rparr>],
              answer_labels := Some [], fake_answers := Some [], ceil_rougel := Some 0\<rparr>)"
  by (simp add: sample_full_stop_def sample_one_def resolver_eval)

lemma sample_absent_doc_run: "gen_mrc_dataset rt_ascii sample_absent_doc = Inl KeyError"
  by (simp add: sample_absent_doc_def sample_one_def resolver_eval)

lemma sample_unlocated_run:
  "gen_mrc_dataset rt_ascii sample_unlocated
     = Inr (sample_unlocated\<lparr>documents := [\<lparr>paragraphs = None, content = Some [97, 98, 99, 100]\<rparr>],
              answer_labels := Some [], fake_answers := Some [], ceil_rougel := Some 0\<rparr>)"
  by (simp add: sample_unlocated_def sample_one_def resolver_eval)

lemma sample_no_marker_run:
  "gen_mrc_dataset rt_ascii sample_no_marker
     = Inr (sample_no_marker\<lparr>documents := [\<lparr>paragraphs = None, content = Some [97, 98, 99, 100]\<rparr>]\<rparr>)"
  by (simp add: sample_no_marker_def sample_one_def resolver_eval)


section \<open>The label of an answer text\<close>

text \<open>
  Claim C2, as amended.  For an answer text and the supporting paragraphs of its
  document, let \<open>(max_rougel, best_start, best_end, best_i)\<close> be the state after the loop
  over the paragraphs.  No paragraph has a confidence above \<open>max_rougel\<close>.  If
  \<open>max_rougel\<close> is 0, no label is appended.  Otherwise \<open>best_i\<close> is the first paragraph
  whose confidence is \<open>max_rougel\<close>, \<open>(best_start, best_end)\<close> is the span located in it,
  and, unless that span is the empty span (\<open>best_end = -1\<close>), the label appended is the
  marker's number minus 1, \<open>best_start\<close> plus that paragraph's stored start, and that sum
  plus \<open>best_end - best_start\<close>.  The empty span comes with confidence 1: the locator
  returns \<open>(0, -1, 1)\<close> for the text that is the full stop alone when the paragraph does
  not contain it, and the guard \<open>best_start != -1 and best_end != -1\<close> then appends no
  label.
\<close>

theorem locate_answer_best:
  assumes "best_sup_para rouge answer_str (enumerate 0 doc_support_paras) (0, - 1, - 1, None)
             = (max_rougel, best_start, best_end, best_i)"
  shows "(\<forall>j<length doc_support_paras. conf rouge answer_str (doc_support_paras ! j) \<le> max_rougel)
       \<and> (max_rougel = 0
            \<longrightarrow> locate_answer rouge ans_in_docid doc_support_paras answer_str = Inr None)
       \<and> (max_rougel \<noteq> 0 \<longrightarrow>
            (\<exists>i<length doc_support_paras. best_i = Some i
               \<and> find_best_match_index rouge answer_str (fst (doc_support_paras ! i))
                    = (best_start, best_end, max_rougel)
               \<and> (\<forall>j<i. conf rouge answer_str (doc_support_paras ! j) < max_rougel)
               \<and> locate_answer rouge ans_in_docid doc_support_paras answer_str =
                   (if best_end = - 1 then Inr None
                    else Inr (Some (int ans_in_docid - 1,
                                    best_start + fst (snd (doc_support_paras ! i)),
                                    best_start + fst (snd (doc_support_paras ! i))
                                      + (best_end - best_start))))))"
  using assms by (rule locate_answer_cases)

theorem locate_answer_best_witness:
  "best_sup_para rouge_l_score [98, 99]
       (enumerate 0 [([97, 98], 0, 1), ([120, 98, 99], 5, 7), ([98, 99, 100], 9, 11)])
       (0, - 1, - 1, None) = (1, 1, 2, Some 1)
   \<and> conf rouge_l_score [98, 99] ([97, 98], 0, 1) = 0
   \<and> conf rouge_l_score [98, 99] ([120, 98, 99], 5, 7) = 1
   \<and> conf rouge_l_score [98, 99] ([98, 99, 100], 9, 11) = 1
   \<and> locate_answer rouge_l_score 1
        [([97, 98], 0, 1), ([120, 98, 99], 5, 7), ([98, 99, 100], 9, 11)] [98, 99]
       = Inr (Some (0, 6, 7))"
proof -
  have b: "best_sup_para rouge_l_score [98, 99]
       (enumerate 0 [([97, 98], 0, 1), ([120, 98, 99], 5, 7), ([98, 99, 100], 9, 11)])
       (0, - 1, - 1, None) = (1, 1, 2, Some 1)"
    by (simp add: resolver_eval)
  have c: "conf rouge_l_score [98, 99] ([97, 98], 0, 1) = 0"
    "conf rouge_l_score [98, 99] ([120, 98, 99], 5, 7) = 1"
    "conf rouge_l_score [98, 99] ([98, 99, 100], 9, 11) = 1"
    by (simp_all add: conf_def resolver_eval)
  from locate_answer_best [OF b, of 1] b c show ?thesis by auto
qed

theorem locate_answer_best_counterexample:
  "best_sup_para rouge_l_score [12290] (enumerate 0 [([97, 98, 99], 0, 2)]) (0, - 1, - 1, None)
     = (1, 0, - 1, Some 0)
   \<and> locate_answer rouge_l_score 1 [([97, 98, 99], 0, 2)] [12290] = Inr None
   \<and> gen_mrc_dataset rt_ascii sample_full_stop
       = Inr (sample_full_stop\<lparr>documents := [\<lparr>paragraphs = None, content = Some [97, 98, 99, 100]\<rparr>],
                answer_labels := Some [], fake_answers := Some [], ceil_rougel := Some 0\<rparr>)"
  by (simp add: sample_full_stop_def sample_one_def resolver_eval)


section \<open>The labels are spans of the documents\<close>





section \<open>An answer that references a document without supporting paragraphs\<close>

text \<open>
  Claim C4, as amended.  Let the answer of a sample reference document id \<open>d\<close>.  If
  \<open>d - 1\<close> is not an index of \<open>documents\<close>, \<open>gen_mrc_dataset\<close> raises an exception: the
  sample is aborted.  When the first phase of the resolver has finished with the
  dictionary \<open>supported_paras\<close>: if \<open>d\<close> has no entry in it, \<open>gen_mrc_dataset\<close> raises
  KeyError at \<open>supported_paras[ans_in_docid]\<close> and the sample is aborted; if \<open>d\<close> has
  entries but each holds the empty text, because none of its supporting paragraphs was
  located, no label is emitted for \<open>d\<close>.
\<close>

theorem answer_without_supporting_paragraph:
  assumes "concat_paragraphs (documents sample) = Inr docs" and "answer sample = Some ans"
    and "supporting_paragraph sample = Some sup_text"
    and "d \<in> set (find_answer_in_docid rt ans)"
  shows "(py_get docs (int d - 1) = Inl IndexError \<longrightarrow> (\<exists>e. gen_mrc_dataset rt sample = Inl e))
       \<and> (\<forall>supported_paras.
            support_docids_loop (rouge_l rt) docs sup_text (find_answer_in_docid rt sup_text)
              Map.empty = Inr supported_paras
            \<longrightarrow> (supported_paras d = None \<longrightarrow> gen_mrc_dataset rt sample = Inl KeyError)
              \<and> (\<forall>ps. supported_paras d = Some ps \<and> (\<forall>p\<in>set ps. fst p = [])
                     \<longrightarrow> doc_labels rt sample d = []))"
proof -
  let ?phase = "support_docids_loop (rouge_l rt) docs sup_text (find_answer_in_docid rt sup_text)
      Map.empty"
  have second: "(supported_paras d = None \<longrightarrow> gen_mrc_dataset rt sample = Inl KeyError)
      \<and> (\<forall>ps. supported_paras d = Some ps \<and> (\<forall>p\<in>set ps. fst p = [])
             \<longrightarrow> doc_labels rt sample d = [])"
    and absent: "py_get docs (int d - 1) = Inl IndexError \<longrightarrow> supported_paras d = None"
    if run: "?phase = Inr supported_paras" for supported_paras
  proof -
    note g = gen_mrc_dataset_answer [OF assms(1-3) run]
    let ?s = "sample\<lparr>documents := docs\<rparr>"
    have ok: "sup_ok (documents ?s) supported_paras" "list_all (label_ok (documents ?s)) []"
      using g(2) by simp_all
    have missing: "gen_mrc_dataset rt sample = Inl KeyError" if "supported_paras d = None"
    proof -
      from that assms(4) have "\<exists>d\<in>set (find_answer_in_docid rt ans). supported_paras d = None"
        by blast
      from answer_docids_loop_missing [OF ok this] show ?thesis
        by (simp add: g(1))
    qed
    have empty: "doc_labels rt sample d = []"
      if "supported_paras d = Some ps" "\<forall>p\<in>set ps. fst p = []" for ps
      using that strs_result_empty_paras [of ps "rouge_l rt" d "str_split ans (marker d)"]
      by (simp add: g(3) doc_answers_def)
    show "(supported_paras d = None \<longrightarrow> gen_mrc_dataset rt sample = Inl KeyError)
      \<and> (\<forall>ps. supported_paras d = Some ps \<and> (\<forall>p\<in>set ps. fst p = [])
             \<longrightarrow> doc_labels rt sample d = [])"
    proof (intro conjI impI allI)
      assume "supported_paras d = None"
      then show "gen_mrc_dataset rt sample = Inl KeyError" by (rule missing)
    next
      fix ps assume "supported_paras d = Some ps \<and> (\<forall>p\<in>set ps. fst p = [])"
      then show "doc_labels rt sample d = []" using empty [of ps] by simp
    qed
    show "py_get docs (int d - 1) = Inl IndexError \<longrightarrow> supported_paras d = None"
    proof
      assume a: "py_get docs (int d - 1) = Inl IndexError"
      show "supported_paras d = None"
      proof (cases "supported_paras d")
        case None
        then show ?thesis .
      next
        case (Some ps)
        with g(2) obtain doc where "py_get docs (int d - 1) = Inr doc"
          unfolding sup_ok_def by blast
        with a show ?thesis by simp
      qed
    qed
  qed
  have first: "\<exists>e. gen_mrc_dataset rt sample = Inl e" if a: "py_get docs (int d - 1) = Inl IndexError"
  proof (cases ?phase)
    case (Inl e)
    with assms(1-3) have "gen_mrc_dataset rt sample = Inl e"
      by (simp add: gen_mrc_dataset_def)
    then show ?thesis by blast
  next
    case (Inr supported_paras)
    from absent [OF Inr] a have "supported_paras d = None" by simp
    with second [OF Inr] show ?thesis by simp
  qed
  show ?thesis
  proof (intro conjI impI allI)
    assume "py_get docs (int d - 1) = Inl IndexError"
    then show "\<exists>e. gen_mrc_dataset rt sample = Inl e" by (rule first)
  next
    fix supported_paras assume r: "?phase = Inr supported_paras"
    { assume "supported_paras d = None"
      with second [OF r] show "gen_mrc_dataset rt sample = Inl KeyError" by simp }
    { fix ps assume "supported_paras d = Some ps \<and> (\<forall>p\<in>set ps. fst p = [])"
      with second [OF r] show "doc_labels rt sample d = []" by simp }
  qed
qed


theorem answer_without_supporting_paragraph_witness:
  "concat_paragraphs (documents sample_absent_doc)
     = Inr [\<lparr>paragraphs = None, content = Some [97, 98, 99, 100]\<rparr>]
   \<and> answer sample_absent_doc = Some (marker 2 @ [98, 99] @ marker 2)
   \<and> supporting_paragraph sample_absent_doc = Some (marker 1 @ [97, 98, 99] @ marker 1)
   \<and> 2 \<in> set (find_answer_in_docid rt_ascii (marker 2 @ [98, 99] @ marker 2))
   \<and> py_get [\<lparr>paragraphs = None, content = Some [97, 98, 99, 100]\<rparr>] (int 2 - 1) = Inl IndexError
   \<and> support_docids_loop (rouge_l rt_ascii) [\<lparr>paragraphs = None, content = Some [97, 98, 99, 100]\<rparr>]
        (marker 1 @ [97, 98, 99] @ marker 1)
        (find_answer_in_docid rt_ascii (marker 1 @ [97, 98, 99] @ marker 1)) Map.empty
       = Inr [1 \<mapsto> [([97, 98, 99], 0, 2)]]
   \<and> gen_mrc_dataset rt_ascii sample_absent_doc = Inl KeyError
   \<and> concat_paragraphs (documents sample_unlocated)
       = Inr [\<lparr>paragraphs = None, content = Some [97, 98, 99, 100]\<rparr>]
   \<and> answer sample_unlocated = Some (marker 1 @ [98, 99] @ marker 1)
   \<and> supporting_paragraph sample_unlocated = Some (marker 1 @ [120, 121, 122] @ marker 1)
   \<and> 1 \<in> set (find_answer_in_docid rt_ascii (marker 1 @ [98, 99] @ marker 1))
   \<and> support_docids_loop (rouge_l rt_ascii) [\<lparr>paragraphs = None, content = Some [97, 98, 99, 100]\<rparr>]
        (marker 1 @ [120, 121, 122] @ marker 1)
        (find_answer_in_docid rt_ascii (marker 1 @ [120, 121, 122] @ marker 1)) Map.empty
       = Inr [1 \<mapsto> [([], - 1, - 1)]]
   \<and> doc_labels rt_ascii sample_unlocated 1 = []"
proof -
  let ?docs = "[\<lparr>paragraphs = None, content = Some [97, 98, 99, 100]\<rparr>]"
  have a: "concat_paragraphs (documents sample_absent_doc) = Inr ?docs"
    by (simp add: sample_absent_doc_def sample_one_def)
  have b: "answer sample_absent_doc = Some (marker 2 @ [98, 99] @ marker 2)"
    by (simp add: sample_absent_doc_def)
  have c: "supporting_paragraph sample_absent_doc = Some (marker 1 @ [97, 98, 99] @ marker 1)"
    by (simp add: sample_absent_doc_def sample_one_def)
  have d: "2 \<in> set (find_answer_in_docid rt_ascii (marker 2 @ [98, 99] @ marker 2))"
    by (simp add: resolver_eval)
  have e: "py_get ?docs (int 2 - 1) = Inl IndexError"
    by (simp add: py_get_def)
  have f: "support_docids_loop (rouge_l rt_ascii) ?docs (marker 1 @ [97, 98, 99] @ marker 1)
        (find_answer_in_docid rt_ascii (marker 1 @ [97, 98, 99] @ marker 1)) Map.empty
       = Inr [1 \<mapsto> [([97, 98, 99], 0, 2)]]"
    by (simp add: resolver_eval)
  have g: "[1 \<mapsto> [([97, 98, 99], 0 :: int, 2 :: int)]] (2 :: nat) = None"
    by simp
  note t = answer_without_supporting_paragraph [OF a b c d]
  from t f g have run: "gen_mrc_dataset rt_ascii sample_absent_doc = Inl KeyError"
    by simp
  have a': "concat_paragraphs (documents sample_unlocated) = Inr ?docs"
    by (simp add: sample_unlocated_def sample_one_def)
  have b': "answer sample_unlocated = Some (marker 1 @ [98, 99] @ marker 1)"
    by (simp add: sample_unlocated_def sample_one_def)
  have c': "supporting_paragraph sample_unlocated = Some (marker 1 @ [120, 121, 122] @ marker 1)"
    by (simp add: sample_unlocated_def)
  have d': "1 \<in> set (find_answer_in_docid rt_ascii (marker 1 @ [98, 99] @ marker 1))"
    by (simp add: resolver_eval)
  have f': "support_docids_loop (rouge_l rt_ascii) ?docs (marker 1 @ [120, 121, 122] @ marker 1)
        (find_answer_in_docid rt_ascii (marker 1 @ [120, 121, 122] @ marker 1)) Map.empty
       = Inr [1 \<mapsto> [([], - 1, - 1)]]"
    by (simp add: resolver_eval)
  note t' = answer_without_supporting_paragraph [OF a' b' c' d']
  from t' f' have empty: "doc_labels rt_ascii sample_unlocated 1 = []"
    by simp
  from a b c d e f run a' b' c' d' f' empty show ?thesis by simp
qed

theorem answer_without_supporting_paragraph_counterexample:
  "2 \<in> set (find_answer_in_docid rt_ascii (the (answer sample_absent_doc)))
   \<and> py_get (documents sample_absent_doc) (int 2 - 1) = Inl IndexError
   \<and> gen_mrc_dataset rt_ascii sample_absent_doc = Inl KeyError"
  by (simp add: sample_absent_doc_def sample_one_def resolver_eval)


section \<open>The labels of all referenced documents\<close>

text \<open>
  Claim C7.  When the resolver returns for a sample whose answer references at least
  one document id, the final \<open>answer_labels\<close> is the concatenation, over the referenced
  ids in the order in which the loop visits them, of the labels emitted for each id.  So
  it contains the labels emitted for every referenced document, not only those of the
  document processed last: the list \<open>answer_labels\<close> is created before the loop over the
  ids and only appended to.
\<close>

theorem answer_labels_all_documents:
  assumes "gen_mrc_dataset rt sample = Inr s'" and "answer sample = Some ans"
    and "find_answer_in_docid rt ans \<noteq> []"
  shows "\<exists>labels. answer_labels s' = Some labels
       \<and> labels = concat (map (doc_labels rt sample) (find_answer_in_docid rt ans))
       \<and> (\<forall>d\<in>set (find_answer_in_docid rt ans). set (doc_labels rt sample d) \<subseteq> set labels)"
  using gen_mrc_dataset_labelled [OF assms] by auto

theorem answer_labels_all_documents_witness:
  "gen_mrc_dataset rt_ascii sample_two_docs = Inr sample_two_docs_out
   \<and> find_answer_in_docid rt_ascii (the (answer sample_two_docs)) = [1, 2]
   \<and> doc_labels rt_ascii sample_two_docs 1 = [(0, 1, 1)]
   \<and> doc_labels rt_ascii sample_two_docs 2 = [(1, 1, 2)]
   \<and> answer_labels sample_two_docs_out = Some [(0, 1, 1), (1, 1, 2)]"
proof -
  let ?ans = "marker 1 @ [98] @ marker 1 @ marker 2 @ [101, 102] @ marker 2"
  have a: "answer sample_two_docs = Some ?ans" by (simp add: sample_two_docs_def)
  have ids: "find_answer_in_docid rt_ascii ?ans = [1, 2]"
    by (simp add: resolver_eval)
  then have ne: "find_answer_in_docid rt_ascii ?ans \<noteq> []" by simp
  have l1: "doc_labels rt_ascii sample_two_docs 1 = [(0, 1, 1)]"
    by (simp add: doc_labels_def doc_answers_def strs_result_def sample_two_docs_def resolver_eval)
  have l2: "doc_labels rt_ascii sample_two_docs 2 = [(1, 1, 2)]"
    by (simp add: doc_labels_def doc_answers_def strs_result_def sample_two_docs_def resolver_eval)
  from answer_labels_all_documents [OF sample_two_docs_run a ne] sample_two_docs_run a ids l1 l2
  show ?thesis by simp
qed


section \<open>Samples in which no answer text is located\<close>

text \<open>
  Where the answer references at least one document id and no label is emitted,
  \<open>answer_labels\<close> and \<open>fake_answers\<close> are empty and \<open>ceil_rougel\<close> is 0.
\<close>

lemma no_labels_no_fake_answers:
  assumes "gen_mrc_dataset rt sample = Inr s'" and "answer sample = Some ans"
    and "find_answer_in_docid rt ans \<noteq> []" and "answer_labels s' = Some []"
  shows "fake_answers s' = Some [] \<and> ceil_rougel s' = Some 0"
proof -
  let ?labels = "concat (map (doc_labels rt sample) (find_answer_in_docid rt ans))"
  from gen_mrc_dataset_labelled [OF assms(1-3)] obtain docs fs where
    r: "concat_paragraphs (documents sample) = Inr docs \<and> documents s' = docs
      \<and> answer_labels s' = Some ?labels \<and> list_all (label_ok docs) ?labels
      \<and> slice_answers docs ?labels = Inr fs \<and> fake_answers s' = Some fs
      \<and> (fs = [] \<longrightarrow> ceil_rougel s' = Some 0)"
    by (elim exE)
  from r assms(4) have "?labels = []" by simp
  with r have "fs = []" by simp
  with r show ?thesis by simp
qed


text \<open>
  Claim C8.  A sample in which no answer text is located shall end with empty
  \<open>answer_labels\<close>, empty \<open>fake_answers\<close> and \<open>ceil_rougel\<close> 0.  The run below is on a
  sample whose answer holds no marker at all: \<open>find_answer_in_docid\<close> finds no id, the
  loop over the ids, which contains the assignment to \<open>sample['answer_labels']\<close> and the
  call of \<open>calc_ceil_rougel\<close>, runs zero times, and the sample is returned with none of
  the three fields.
\<close>

theorem answer_without_marker_unlabelled:
  "find_answer_in_docid rt_ascii (the (answer sample_no_marker)) = []
   \<and> gen_mrc_dataset rt_ascii sample_no_marker
       = Inr (sample_no_marker\<lparr>documents := [\<lparr>paragraphs = None, content = Some [97, 98, 99, 100]\<rparr>],
                answer_labels := None, fake_answers := None, ceil_rougel := None\<rparr>)"
  by (simp add: sample_no_marker_def sample_one_def resolver_eval)

end
